theory Spec2Isabelle
  imports Main "HOL-Library.Word"
begin

unbundle bit_operations_syntax

section \<open>The hypervisor buddy page allocator\<close>

text \<open>
  A shallow embedding of \<^verbatim>\<open>arch/arm64/kvm/hyp/nvhe/page_alloc.c\<close>.

  Conventions.
  \<^item> A \<^verbatim>\<open>struct hyp_page *\<close> points into the array \<^verbatim>\<open>hyp_vmemmap\<close>; the model
    identifies it with its index, the page frame number. Pointer arithmetic \<^verbatim>\<open>p + i\<close>
    and the pointer comparison of \<^verbatim>\<open>min(p, buddy)\<close> are arithmetic and comparison of
    frame numbers.
  \<^item> Physical addresses (\<^verbatim>\<open>phys_addr_t\<close>, 64 bits) are natural numbers; the one
    constant that relies on the width, \<^verbatim>\<open>-1ULL\<close>, is written out as \<open>2 ^ 64 - 1\<close>.
  \<^item> The fields \<^verbatim>\<open>order\<close> (\<^verbatim>\<open>u8\<close>), \<^verbatim>\<open>refcount\<close> (\<^verbatim>\<open>unsigned short\<close>) and
    \<^verbatim>\<open>free_pages\<close> (\<^verbatim>\<open>u64\<close>) are machine words: their arithmetic wraps.
  \<^item> A free list is the sequence of the pages linked on it, first entry first. The
    link words that the source keeps in the first 16 bytes of each linked page are
    written to the modelled memory as the list primitives write them.
  \<^item> The pool, the metadata array and the page bodies form one state record that every
    operation takes and returns. The spinlock is not modelled: operations run one at
    a time.
  \<^item> \<^verbatim>\<open>BUG_ON\<close>, a shift of an \<^verbatim>\<open>int\<close> by 31 or more (undefined in C) and an index
    beyond the \<^verbatim>\<open>MAX_ORDER + 1\<close> list heads are results of type \<open>error\<close>.
  \<^item> A source name \<^verbatim>\<open>__f\<close> is written \<open>uu_f\<close>.
\<close>

subsection \<open>Constants and data\<close>

text \<open>
  Modelled from the spec: the compile-time constants \<^verbatim>\<open>PAGE_SIZE\<close> and \<^verbatim>\<open>MAX_ORDER\<close>
  come from headers that are not part of the source file. The values are the ones the
  spec's scenarios assume (\<^verbatim>\<open>PAGE_SIZE = 4096\<close>, \<^verbatim>\<open>MAX_ORDER = 4\<close>).
\<close>

definition PAGE_SHIFT :: nat where
  "PAGE_SHIFT = 12"

definition PAGE_SIZE :: nat where
  "PAGE_SIZE = 4096"

definition MAX_ORDER :: nat where
  "MAX_ORDER = 4"

text \<open>
  Modelled from the spec: \<^verbatim>\<open>HYP_NO_ORDER\<close>, the reserved sentinel of the \<^verbatim>\<open>order\<close> field
  (``not a head''). The field is a \<^verbatim>\<open>u8\<close> in the source (\<^verbatim>\<open>u8 order = p->order\<close>); the
  sentinel is the all-ones value, outside \<open>[0, MAX_ORDER]\<close>.
\<close>

definition HYP_NO_ORDER :: "8 word" where
  "HYP_NO_ORDER = 255"

type_synonym pfn = nat

datatype error = BUG | Shift_undefined nat | Index_out_of_bounds nat

record hyp_page =
  refcount :: "16 word"
  order :: "8 word"

text \<open>
  The fields of \<^verbatim>\<open>struct hyp_pool\<close> (without the lock), followed by what the allocator
  reads and writes outside the pool structure: the metadata array, the bytes of memory,
  and the address of each list head \<^verbatim>\<open>&pool->free_area[k]\<close>.
\<close>

record hyp_state =
  free_area :: "nat \<Rightarrow> pfn list"
  range_start :: nat
  range_end :: nat
  free_pages :: "64 word"
  max_order :: "8 word"
  area_addr :: "nat \<Rightarrow> nat"
  vmemmap :: "pfn \<Rightarrow> hyp_page"
  mem :: "nat \<Rightarrow> 8 word"

subsection \<open>Address mapping and reference counts\<close>

text \<open>
  Modelled from the spec: \<^verbatim>\<open>hyp_pfn_to_phys\<close>, \<^verbatim>\<open>hyp_page_to_phys\<close> and
  \<^verbatim>\<open>hyp_phys_to_page\<close> (``bijection between in-range physical addresses and metadata
  entries''; a frame's physical address is its index times \<^verbatim>\<open>PAGE_SIZE\<close>).
\<close>

definition hyp_pfn_to_phys :: "pfn \<Rightarrow> nat" where
  "hyp_pfn_to_phys n = push_bit PAGE_SHIFT n"

definition hyp_page_to_phys :: "pfn \<Rightarrow> nat" where
  "hyp_page_to_phys p = hyp_pfn_to_phys p"

definition hyp_phys_to_page :: "nat \<Rightarrow> pfn" where
  "hyp_phys_to_page a = drop_bit PAGE_SHIFT a"

text \<open>
  Modelled from the spec: \<^verbatim>\<open>hyp_page_to_virt\<close> and \<^verbatim>\<open>hyp_virt_to_page\<close> (``bijection
  between metadata entries and directly addressable page bodies''). The model
  addresses a page body by the physical address of its frame.
\<close>

definition hyp_page_to_virt :: "pfn \<Rightarrow> nat" where
  "hyp_page_to_virt p = hyp_page_to_phys p"

definition hyp_virt_to_page :: "nat \<Rightarrow> pfn" where
  "hyp_virt_to_page a = hyp_phys_to_page a"

definition set_order :: "hyp_state \<Rightarrow> pfn \<Rightarrow> 8 word \<Rightarrow> hyp_state" where
  "set_order s p v = s\<lparr>vmemmap := (vmemmap s)(p := (vmemmap s p)\<lparr>order := v\<rparr>)\<rparr>"

definition set_refcount :: "hyp_state \<Rightarrow> pfn \<Rightarrow> 16 word \<Rightarrow> hyp_state" where
  "set_refcount s p v = s\<lparr>vmemmap := (vmemmap s)(p := (vmemmap s p)\<lparr>refcount := v\<rparr>)\<rparr>"

text \<open>
  Modelled from the spec: the reference-count helpers of the host environment.
  \<^verbatim>\<open>set_page_refcounted\<close> sets the count to 1, \<^verbatim>\<open>ref_inc\<close> increments,
  \<^verbatim>\<open>ref_dec_and_test\<close> decrements and returns true iff the result is zero, and
  \<^verbatim>\<open>ref_get\<close> reads the count.
\<close>

definition hyp_set_page_refcounted :: "hyp_state \<Rightarrow> pfn \<Rightarrow> hyp_state" where
  "hyp_set_page_refcounted s p = set_refcount s p 1"

definition hyp_page_ref_inc :: "hyp_state \<Rightarrow> pfn \<Rightarrow> hyp_state" where
  "hyp_page_ref_inc s p = set_refcount s p (refcount (vmemmap s p) + 1)"

definition hyp_page_ref_dec_and_test :: "hyp_state \<Rightarrow> pfn \<Rightarrow> bool \<times> hyp_state" where
  "hyp_page_ref_dec_and_test s p =
     (let s' = set_refcount s p (refcount (vmemmap s p) - 1)
      in (refcount (vmemmap s' p) = 0, s'))"

definition hyp_refcount_get :: "16 word \<Rightarrow> 16 word" where
  "hyp_refcount_get r = r"

text \<open>
  The expression \<^verbatim>\<open>1 << p->order\<close>: the constant is an \<^verbatim>\<open>int\<close>, so the shift is defined
  for counts below 31 only; its value is then widened to the 64 bits of
  \<^verbatim>\<open>free_pages\<close>.
\<close>

definition shl_int :: "8 word \<Rightarrow> 64 word option" where
  "shl_int n = (if unat n < 31 then Some (push_bit (unat n) 1) else None)"

subsection \<open>Memory and the embedded list nodes\<close>

definition memset_zero :: "nat \<Rightarrow> nat \<Rightarrow> (nat \<Rightarrow> 8 word) \<Rightarrow> nat \<Rightarrow> 8 word" where
  "memset_zero a n m = (\<lambda>x. if a \<le> x \<and> x < a + n then 0 else m x)"

text \<open>A pointer is stored as eight bytes, least significant first.\<close>

definition store_ptr :: "nat \<Rightarrow> nat \<Rightarrow> (nat \<Rightarrow> 8 word) \<Rightarrow> nat \<Rightarrow> 8 word" where
  "store_ptr a v m = (\<lambda>x. if a \<le> x \<and> x < a + 8 then word_of_nat (drop_bit (8 * (x - a)) v) else m x)"

text \<open>
  Modelled from the spec: the list primitives of the kernel (\<^verbatim>\<open>list_empty\<close>,
  \<^verbatim>\<open>INIT_LIST_HEAD\<close>, \<^verbatim>\<open>list_add_tail\<close>, \<^verbatim>\<open>__list_del_entry\<close>): ``insertion appends to
  the tail of \<^verbatim>\<open>free_area[k]\<close>; removal unlinks''. A \<^verbatim>\<open>struct list_head\<close> is the word
  \<^verbatim>\<open>next\<close> followed by the word \<^verbatim>\<open>prev\<close>. The words of a list head itself live in
  the pool structure and are represented by the sequence.
\<close>

definition list_empty :: "hyp_state \<Rightarrow> nat \<Rightarrow> bool" where
  "list_empty s k = (free_area s k = [])"

definition INIT_LIST_HEAD_node :: "hyp_state \<Rightarrow> nat \<Rightarrow> hyp_state" where
  "INIT_LIST_HEAD_node s node = s\<lparr>mem := store_ptr (node + 8) node (store_ptr node node (mem s))\<rparr>"

definition list_add_tail :: "hyp_state \<Rightarrow> pfn \<Rightarrow> nat \<Rightarrow> hyp_state" where
  "list_add_tail s p k =
     (let l = free_area s k;
          node = hyp_page_to_virt p;
          head = area_addr s k;
          prev = (if l = [] then head else hyp_page_to_virt (last l));
          m1 = store_ptr node head (mem s);
          m2 = store_ptr (node + 8) prev m1;
          m3 = (if l = [] then m2 else store_ptr prev node m2)
      in s\<lparr>free_area := (free_area s)(k := l @ [p]), mem := m3\<rparr>)"

definition unlink_mem :: "hyp_state \<Rightarrow> pfn \<Rightarrow> nat \<Rightarrow> (nat \<Rightarrow> 8 word) \<Rightarrow> nat \<Rightarrow> 8 word" where
  "unlink_mem s p k m =
     (let l = free_area s k;
          pre = takeWhile (\<lambda>x. x \<noteq> p) l;
          post = tl (dropWhile (\<lambda>x. x \<noteq> p) l);
          head = area_addr s k;
          prev = (if pre = [] then head else hyp_page_to_virt (last pre));
          nxt = (if post = [] then head else hyp_page_to_virt (hd post));
          m1 = (if post = [] then m else store_ptr (nxt + 8) prev m);
          m2 = (if pre = [] then m1 else store_ptr prev nxt m1)
      in if p \<in> set l then m2 else m)"

text \<open>
  \<^verbatim>\<open>__list_del_entry(node)\<close> unlinks the node from the list it is on: the
  predecessor's \<^verbatim>\<open>next\<close> and the successor's \<^verbatim>\<open>prev\<close> are redirected, and the page
  leaves the sequence.
\<close>

definition list_del_entry :: "hyp_state \<Rightarrow> pfn \<Rightarrow> hyp_state" where
  "list_del_entry s p =
     s\<lparr>free_area := (\<lambda>k. remove1 p (free_area s k)),
       mem := fold (unlink_mem s p) [0..<Suc MAX_ORDER] (mem s)\<rparr>"

subsection \<open>Buddy indexing\<close>

definition uu_find_buddy_nocheck :: "hyp_state \<Rightarrow> pfn \<Rightarrow> 8 word \<Rightarrow> pfn option" where
  "uu_find_buddy_nocheck s p ord =
     (let addr = hyp_page_to_phys p XOR push_bit (unat ord) PAGE_SIZE
      in if addr < range_start s \<or> addr \<ge> range_end s then None
         else Some (hyp_phys_to_page addr))"

definition uu_find_buddy_avail :: "hyp_state \<Rightarrow> pfn \<Rightarrow> 8 word \<Rightarrow> pfn option" where
  "uu_find_buddy_avail s p ord =
     (case uu_find_buddy_nocheck s p ord of
        None \<Rightarrow> None
      | Some buddy \<Rightarrow>
          if order (vmemmap s buddy) \<noteq> ord \<or> hyp_refcount_get (refcount (vmemmap s buddy)) \<noteq> 0
          then None else Some buddy)"

subsection \<open>Free-list embedding\<close>

definition page_remove_from_list :: "hyp_state \<Rightarrow> pfn \<Rightarrow> hyp_state" where
  "page_remove_from_list s p =
     (let node = hyp_page_to_virt p;
          s1 = list_del_entry s p
      in s1\<lparr>mem := memset_zero node 16 (mem s1)\<rparr>)"

definition page_add_to_list :: "hyp_state \<Rightarrow> pfn \<Rightarrow> nat \<Rightarrow> error + hyp_state" where
  "page_add_to_list s p k =
     (if k > MAX_ORDER then Inl (Index_out_of_bounds k)
      else Inr (list_add_tail (INIT_LIST_HEAD_node s (hyp_page_to_virt p)) p k))"

definition node_to_page :: "nat \<Rightarrow> pfn" where
  "node_to_page node = hyp_virt_to_page node"

subsection \<open>Attach: release into the pool, with coalescing\<close>

text \<open>
  The \<^verbatim>\<open>for\<close> loop of \<^verbatim>\<open>__hyp_attach_page\<close>. Its state is the pool, the current head
  \<open>p\<close> and the current \<open>order\<close>; the guard \<^verbatim>\<open>(order + 1) <= pool->max_order\<close> is
  evaluated on \<^verbatim>\<open>int\<close>, so it does not wrap.
\<close>

function coalesce :: "hyp_state \<Rightarrow> pfn \<Rightarrow> 8 word \<Rightarrow> hyp_state \<times> pfn \<times> 8 word" where
  "coalesce s p ord =
     (if unat ord + 1 \<le> unat (max_order s) then
        (case uu_find_buddy_avail s p ord of
           None \<Rightarrow> (s, p, ord)
         | Some buddy \<Rightarrow>
             coalesce (set_order (page_remove_from_list s buddy) buddy HYP_NO_ORDER)
               (min p buddy) (ord + 1))
      else (s, p, ord))"
  by pat_completeness auto
termination
proof (relation "measure (\<lambda>(s, p, ord). unat (max_order s) - unat ord)")
  show "wf (measure (\<lambda>(s, p, ord). unat (max_order s) - unat ord))"
    by simp
next
  fix s :: hyp_state and p :: pfn and ord :: "8 word" and buddy :: pfn
  assume guard: "unat ord + 1 \<le> unat (max_order s)"
  have "unat (max_order s) < 256"
    using unsigned_less [of "max_order s", where ?'a = nat] by simp
  with guard have "unat (ord + 1) = unat ord + 1"
    by (simp add: unat_word_ariths)
  with guard show "((set_order (page_remove_from_list s buddy) buddy HYP_NO_ORDER, min p buddy, ord + 1),
      (s, p, ord)) \<in> measure (\<lambda>(s, p, ord). unat (max_order s) - unat ord)"
    by (simp add: set_order_def page_remove_from_list_def list_del_entry_def Let_def)
qed

definition uu_hyp_attach_page :: "hyp_state \<Rightarrow> pfn \<Rightarrow> error + hyp_state" where
  "uu_hyp_attach_page s p =
     (let phys = hyp_page_to_phys p;
          ord = order (vmemmap s p);
          s1 = s\<lparr>mem := memset_zero (hyp_page_to_virt p) (push_bit (unat (order (vmemmap s p))) PAGE_SIZE) (mem s)\<rparr>
      in if phys < range_start s1 \<or> phys \<ge> range_end s1
         then page_add_to_list (set_order s1 p ord) p (unat ord)
         else
           (let s2 = set_order s1 p HYP_NO_ORDER;
                (s3, p', ord') = coalesce s2 p ord
            in page_add_to_list (set_order s3 p' ord') p' (unat ord')))"

subsection \<open>Extract: allocation with splitting\<close>

text \<open>
  The \<^verbatim>\<open>while\<close> loop of \<^verbatim>\<open>__hyp_extract_page\<close>. Both \<^verbatim>\<open>return\<close> statements return
  the argument \<open>p\<close>, so the model returns the state only.
\<close>

function extract_loop :: "hyp_state \<Rightarrow> pfn \<Rightarrow> 8 word \<Rightarrow> error + hyp_state" where
  "extract_loop s p ord =
     (if order (vmemmap s p) > ord then
        (case uu_find_buddy_nocheck s p (order (vmemmap s p) - 1) of
           None \<Rightarrow> Inr s
         | Some buddy \<Rightarrow>
             (let s1 = set_order s p (order (vmemmap s p) - 1);
                  s2 = set_order s1 buddy (order (vmemmap s1 p))
              in case page_add_to_list s2 buddy (unat (order (vmemmap s2 buddy))) of
                   Inl e \<Rightarrow> Inl e
                 | Inr s3 \<Rightarrow> extract_loop s3 p ord))
      else Inr s)"
  by pat_completeness auto
termination
  apply (relation "measure (\<lambda>(s, p, ord). unat (order (vmemmap s p)))")
   apply simp
  apply (auto simp: set_order_def page_add_to_list_def list_add_tail_def INIT_LIST_HEAD_node_def
      Let_def split: if_splits)
   apply (simp_all add: unat_sub word_le_nat_alt word_less_nat_alt unat_gt_0)
  done

definition uu_hyp_extract_page :: "hyp_state \<Rightarrow> pfn \<Rightarrow> 8 word \<Rightarrow> error + pfn \<times> hyp_state" where
  "uu_hyp_extract_page s p ord =
     (case extract_loop (page_remove_from_list s p) p ord of
        Inl e \<Rightarrow> Inl e
      | Inr s' \<Rightarrow> Inr (p, s'))"

subsection \<open>Public operations\<close>

definition uu_hyp_put_page :: "hyp_state \<Rightarrow> pfn \<Rightarrow> error + hyp_state" where
  "uu_hyp_put_page s p =
     (let (zero, s1) = hyp_page_ref_dec_and_test s p
      in if zero then
           (case uu_hyp_attach_page s1 p of
              Inl e \<Rightarrow> Inl e
            | Inr s2 \<Rightarrow>
                (case shl_int (order (vmemmap s2 p)) of
                   None \<Rightarrow> Inl (Shift_undefined (unat (order (vmemmap s2 p))))
                 | Some n \<Rightarrow> Inr (s2\<lparr>free_pages := free_pages s2 + n\<rparr>)))
         else Inr s1)"

definition hyp_put_page :: "hyp_state \<Rightarrow> nat \<Rightarrow> error + hyp_state" where
  "hyp_put_page s addr =
     (let p = hyp_virt_to_page addr
      in if order (vmemmap s p) > max_order s then Inl BUG else uu_hyp_put_page s p)"

definition hyp_get_page :: "hyp_state \<Rightarrow> nat \<Rightarrow> hyp_state" where
  "hyp_get_page s addr = hyp_page_ref_inc s (hyp_virt_to_page addr)"

text \<open>
  \<^verbatim>\<open>hyp_split_page\<close>: the bound \<^verbatim>\<open>1 << order\<close> of the loop is an \<^verbatim>\<open>int\<close> shift.
\<close>

definition hyp_split_page :: "hyp_state \<Rightarrow> pfn \<Rightarrow> error + hyp_state" where
  "hyp_split_page s p =
     (let ord = order (vmemmap s p);
          s1 = set_order s p 0
      in if unat ord \<ge> 31 then Inl (Shift_undefined (unat ord))
         else Inr (fold (\<lambda>i s'. hyp_set_page_refcounted (set_order s' (p + i) 0) (p + i))
                     [1..<2 ^ unat ord] s1))"

text \<open>
  The scan of \<^verbatim>\<open>hyp_alloc_pages\<close>. The counter \<^verbatim>\<open>i\<close> is a \<^verbatim>\<open>u8\<close>; it is read as a
  list index before it is incremented, so it never passes \<open>MAX_ORDER + 1\<close> without the
  index leaving the array first.
\<close>

function scan_free_area :: "hyp_state \<Rightarrow> nat \<Rightarrow> error + nat" where
  "scan_free_area s i =
     (if i \<le> unat (max_order s) then
        (if i > MAX_ORDER then Inl (Index_out_of_bounds i)
         else if list_empty s i then scan_free_area s (i + 1)
         else Inr i)
      else Inr i)"
  by pat_completeness auto
termination
  by (relation "measure (\<lambda>(s, i). Suc MAX_ORDER - i)") auto

definition hyp_alloc_pages :: "hyp_state \<Rightarrow> 8 word \<Rightarrow> error + nat option \<times> hyp_state" where
  "hyp_alloc_pages s ord =
     (case scan_free_area s (unat ord) of
        Inl e \<Rightarrow> Inl e
      | Inr i \<Rightarrow>
          if i > unat (max_order s) then Inr (None, s)
          else
            (case uu_hyp_extract_page s (node_to_page (hyp_page_to_virt (hd (free_area s i)))) ord of
               Inl e \<Rightarrow> Inl e
             | Inr (p, s1) \<Rightarrow>
                 (let s2 = hyp_set_page_refcounted s1 p
                  in case shl_int (order (vmemmap s2 p)) of
                       None \<Rightarrow> Inl (Shift_undefined (unat (order (vmemmap s2 p))))
                     | Some n \<Rightarrow>
                         Inr (Some (hyp_page_to_virt p), s2\<lparr>free_pages := free_pages s2 - n\<rparr>))))"

definition hyp_pool_free_pages :: "hyp_state \<Rightarrow> 64 word" where
  "hyp_pool_free_pages s = free_pages s"

subsection \<open>Initialisation\<close>

text \<open>
  Modelled from the spec: \<^verbatim>\<open>get_order\<close>, the kernel's size-to-order helper
  (``\<^verbatim>\<open>max_order = min(MAX_ORDER, ceil_log2(nr_pages))\<close>''): the least order whose
  group holds the given number of bytes.
\<close>

fun ceil_log2 :: "nat \<Rightarrow> nat" where
  "ceil_log2 n = (if n \<le> 1 then 0 else Suc (ceil_log2 ((n + 1) div 2)))"

definition get_order :: "nat \<Rightarrow> nat" where
  "get_order sz = ceil_log2 ((sz + PAGE_SIZE - 1) div PAGE_SIZE)"

fun put_pages :: "hyp_state \<Rightarrow> pfn list \<Rightarrow> error + hyp_state" where
  "put_pages s [] = Inr s"
| "put_pages s (p # ps) =
     (case uu_hyp_put_page s p of Inl e \<Rightarrow> Inl e | Inr s' \<Rightarrow> put_pages s' ps)"

text \<open>
  \<^verbatim>\<open>__hyp_pool_init\<close>. The argument \<^verbatim>\<open>nr_pages\<close> is an \<^verbatim>\<open>unsigned int\<close>, so
  \<^verbatim>\<open>nr_pages << PAGE_SHIFT\<close> is a 32-bit shift. The function does not write
  \<^verbatim>\<open>free_pages\<close>: the counter keeps the value the pool structure held before.
\<close>

definition uu_hyp_pool_init ::
    "hyp_state \<Rightarrow> nat \<Rightarrow> 32 word \<Rightarrow> 32 word \<Rightarrow> bool \<Rightarrow> error + hyp_state" where
  "uu_hyp_pool_init s pfn nr_pages reserved_pages empty_alloc =
     (let phys = hyp_pfn_to_phys pfn;
          bytes = unat (push_bit PAGE_SHIFT nr_pages :: 32 word);
          mo = min MAX_ORDER (get_order bytes);
          s1 = s\<lparr>max_order := of_nat mo,
                 free_area := (\<lambda>k. if k \<le> mo then [] else free_area s k)\<rparr>
      in if empty_alloc then Inr (s1\<lparr>range_start := 2 ^ 64 - 1, range_end := 0\<rparr>)
         else
           (let s2 = s1\<lparr>range_start := phys, range_end := phys + bytes\<rparr>;
                p = hyp_phys_to_page phys;
                s3 = fold (\<lambda>i s'. hyp_set_page_refcounted s' (p + i)) [0..<unat nr_pages] s2
            in put_pages s3 (map (\<lambda>i. p + i) [unat reserved_pages..<unat nr_pages])))"

definition hyp_pool_init :: "hyp_state \<Rightarrow> nat \<Rightarrow> 32 word \<Rightarrow> 32 word \<Rightarrow> error + hyp_state" where
  "hyp_pool_init s pfn nr_pages reserved_pages = uu_hyp_pool_init s pfn nr_pages reserved_pages False"

definition hyp_pool_init_empty :: "hyp_state \<Rightarrow> 32 word \<Rightarrow> error + hyp_state" where
  "hyp_pool_init_empty s nr_pages = uu_hyp_pool_init s 0 nr_pages 0 True"

subsection \<open>Concrete states of the scenarios\<close>

text \<open>
  A pool structure and a metadata array filled with zero bytes, as the initialiser
  finds them: every frame has reference count 0 and order 0, the counter is 0.
\<close>

definition boot_state :: hyp_state where
  "boot_state =
     \<lparr>free_area = (\<lambda>_. []), range_start = 0, range_end = 0, free_pages = 0, max_order = 0,
      area_addr = (\<lambda>k. 2 ^ 40 + 16 * k), vmemmap = (\<lambda>_. \<lparr>refcount = 0, order = 0\<rparr>),
      mem = (\<lambda>_. 0)\<rparr>"

text \<open>
  The state inside \<^verbatim>\<open>hyp_pool_init(pool, 0, 2, 0)\<close> after its first loop: the range is
  frames 0 and 1, \<open>max_order\<close> is 1 and both frames have reference count 1.
\<close>

definition two_frames :: hyp_state where
  "two_frames = set_refcount (set_refcount (boot_state\<lparr>range_end := 8192, max_order := 1\<rparr>) 0 1) 1 1"

text \<open>
  A pool over frames 0 and 1 whose two frames form one free group of order 1, headed by
  frame 0: the state the spec's scenario S6 expects after \<^verbatim>\<open>hyp_pool_init(pool, 0, 2, 0)\<close>.
\<close>

definition pair_free :: hyp_state where
  "pair_free =
     boot_state\<lparr>range_end := 8192, max_order := 1, free_pages := 2,
       free_area := (\<lambda>k. if k = 1 then [0] else []),
       vmemmap := (\<lambda>q. if q = 0 then \<lparr>refcount = 0, order = 1\<rparr>
                         else \<lparr>refcount = 0, order = HYP_NO_ORDER\<rparr>)\<rparr>"

text \<open>
  The zeroed pool and metadata array, with the two external frames 100 and 101 held by
  a caller (reference count 1): the starting point of the spec's scenario S5.
\<close>

definition two_external :: hyp_state where
  "two_external = set_refcount (set_refcount boot_state 100 1) 101 1"

text \<open>A caller's sequence of \<^verbatim>\<open>hyp_put_page\<close> calls, stopping at the first failure.\<close>

fun put_addrs :: "hyp_state \<Rightarrow> nat list \<Rightarrow> error + hyp_state" where
  "put_addrs s [] = Inr s"
| "put_addrs s (a # as) =
     (case hyp_put_page s a of Inl e \<Rightarrow> Inl e | Inr s' \<Rightarrow> put_addrs s' as)"

subsection \<open>The spec's description of buddy lookup, attach and extract\<close>

text \<open>
  The definitions of this subsection follow the words of the specification (sections
  4.1, 4.3 and 4.4), with orders as natural numbers; they are compared with the
  definitions translated from the source.

  Buddy indexing: ``the buddy is the entry whose physical address is
  \<^verbatim>\<open>phys(p) XOR (PAGE_SIZE << k)\<close>''; the unchecked lookup ``returns the candidate buddy
  entry, or a null result if the computed physical address falls outside
  \<^verbatim>\<open>[range_start, range_end)\<close>''; the checked lookup ``returns the buddy only if it
  exists, has \<^verbatim>\<open>order == k\<close>, and \<^verbatim>\<open>refcount == 0\<close>''.
\<close>

definition spec_buddy_phys :: "pfn \<Rightarrow> nat \<Rightarrow> nat" where
  "spec_buddy_phys p k = (p * PAGE_SIZE) XOR (PAGE_SIZE * 2 ^ k)"

definition spec_find_buddy_nocheck :: "hyp_state \<Rightarrow> pfn \<Rightarrow> nat \<Rightarrow> pfn option" where
  "spec_find_buddy_nocheck s p k =
     (if range_start s \<le> spec_buddy_phys p k \<and> spec_buddy_phys p k < range_end s
      then Some (spec_buddy_phys p k div PAGE_SIZE) else None)"

definition spec_find_buddy_avail :: "hyp_state \<Rightarrow> pfn \<Rightarrow> nat \<Rightarrow> pfn option" where
  "spec_find_buddy_avail s p k =
     (case spec_find_buddy_nocheck s p k of
        None \<Rightarrow> None
      | Some b \<Rightarrow>
          if unat (order (vmemmap s b)) = k \<and> refcount (vmemmap s b) = 0 then Some b else None)"

text \<open>
  Attach, step 4: ``loop while \<^verbatim>\<open>order < max_order\<close>: ask \<^verbatim>\<open>find_buddy_avail(p, order)\<close>;
  if null, stop. Otherwise remove the buddy from its free list, set
  \<^verbatim>\<open>buddy.order = NO_ORDER\<close>, set \<^verbatim>\<open>p = min(p, buddy)\<close>, increment \<^verbatim>\<open>order\<close>.''
\<close>

function spec_coalesce :: "hyp_state \<Rightarrow> pfn \<Rightarrow> nat \<Rightarrow> hyp_state \<times> pfn \<times> nat" where
  "spec_coalesce s p k =
     (if k < unat (max_order s) then
        (case spec_find_buddy_avail s p k of
           None \<Rightarrow> (s, p, k)
         | Some b \<Rightarrow>
             spec_coalesce (set_order (page_remove_from_list s b) b HYP_NO_ORDER) (min p b) (k + 1))
      else (s, p, k))"
  by pat_completeness auto
termination
  by (relation "measure (\<lambda>(s, p, k). unat (max_order s) - k)")
    (auto simp: set_order_def page_remove_from_list_def list_del_entry_def Let_def)

text \<open>
  Attach, steps 1 to 5: zero the body of the group; an external page is inserted
  directly into \<^verbatim>\<open>free_area[order]\<close>; otherwise mark \<^verbatim>\<open>p.order = NO_ORDER\<close>, coalesce,
  ``set \<^verbatim>\<open>p.order = order\<close> and insert \<^verbatim>\<open>p\<close> at the tail of \<^verbatim>\<open>free_area[order]\<close>''.
\<close>

definition spec_attach_page :: "hyp_state \<Rightarrow> pfn \<Rightarrow> error + hyp_state" where
  "spec_attach_page s p =
     (let k = unat (order (vmemmap s p));
          s1 = s\<lparr>mem := memset_zero (hyp_page_to_virt p) (2 ^ k * PAGE_SIZE) (mem s)\<rparr>
      in if range_start s \<le> hyp_page_to_phys p \<and> hyp_page_to_phys p < range_end s
         then
           (case spec_coalesce (set_order s1 p HYP_NO_ORDER) p k of
              (s2, head, k') \<Rightarrow> page_add_to_list (set_order s2 head (of_nat k')) head k')
         else page_add_to_list s1 p k)"

text \<open>
  Extract: ``remove \<^verbatim>\<open>p\<close> from its free list. While \<^verbatim>\<open>p.order > want_order\<close>: locate the
  order-\<^verbatim>\<open>(p.order - 1)\<close> buddy of \<^verbatim>\<open>p\<close> via the nocheck routine. Decrement \<^verbatim>\<open>p.order\<close>,
  set \<^verbatim>\<open>buddy.order = p.order\<close>, and insert the buddy at the tail of
  \<^verbatim>\<open>free_area[buddy.order]\<close>''; ``if the nocheck lookup returns null during splitting,
  extraction stops and returns the page at its current (oversize) order''.
\<close>

function spec_split :: "hyp_state \<Rightarrow> pfn \<Rightarrow> nat \<Rightarrow> error + hyp_state" where
  "spec_split s p want =
     (let k = unat (order (vmemmap s p)) in
      if k > want then
        (case spec_find_buddy_nocheck s p (k - 1) of
           None \<Rightarrow> Inr s
         | Some b \<Rightarrow>
             (case page_add_to_list
                     (set_order (set_order s p (of_nat (k - 1))) b (of_nat (k - 1))) b (k - 1) of
                Inl e \<Rightarrow> Inl e
              | Inr s' \<Rightarrow> spec_split s' p want))
      else Inr s)"
  by pat_completeness auto
termination
proof (relation "measure (\<lambda>(s, p, want). unat (order (vmemmap s p)))")
  show "wf (measure (\<lambda>(s, p, want). unat (order (vmemmap s p))))"
    by simp
next
  fix s :: hyp_state and p :: pfn and want k :: nat and b :: pfn and s' :: hyp_state
  assume k: "k = unat (order (vmemmap s p))" and gt: "want < k"
    and add: "page_add_to_list (set_order (set_order s p (of_nat (k - 1))) b (of_nat (k - 1))) b (k - 1) = Inr s'"
  have "k < 256"
    using unsigned_less [of "order (vmemmap s p)", where ?'a = nat] k by simp
  then have u: "unat (of_nat (k - 1) :: 8 word) = k - 1"
    by (simp add: unat_of_nat)
  from add have "order (vmemmap s' p) = of_nat (k - 1)"
    by (auto simp: page_add_to_list_def set_order_def list_add_tail_def INIT_LIST_HEAD_node_def
        Let_def split: if_splits)
  with u gt k show "((s', p, want), (s, p, want)) \<in> measure (\<lambda>(s, p, want). unat (order (vmemmap s p)))"
    by simp
qed

definition spec_extract_page :: "hyp_state \<Rightarrow> pfn \<Rightarrow> nat \<Rightarrow> error + pfn \<times> hyp_state" where
  "spec_extract_page s p want =
     (case spec_split (page_remove_from_list s p) p want of
        Inl e \<Rightarrow> Inl e
      | Inr s' \<Rightarrow> Inr (p, s'))"

text \<open>
  The pool over frames 0 and 1 after frame 0 was released: frame 0 is free at order 0,
  frame 1 is still held.
\<close>

definition one_free :: hyp_state where
  "one_free =
     (set_refcount two_frames 0 0)\<lparr>free_area := (\<lambda>k. if k = 0 then [0] else []), free_pages := 1\<rparr>"

text \<open>
  The zeroed pool and metadata array with the external frame 100 held by a caller as
  the head of a group of order 1.
\<close>

definition external_pair :: hyp_state where
  "external_pair = set_order (set_refcount boot_state 100 1) 100 1"

subsection \<open>Invariants of the pool\<close>



text \<open>
  The well-formed pool. A page is in range when its physical address is inside
  \<open>[range_start, range_end)\<close>.
  \<^item> \<open>inv_lists\<close>: \<open>max_order\<close> is within the list heads; no list holds a page twice;
    every entry of list \<open>k\<close> has \<open>k \<le> max_order\<close>, order \<open>k\<close> and reference count 0.
  \<^item> \<open>inv_blocks\<close>: an in-range page with an order heads a group that is aligned to its
    size and whose other frames are in range, carry \<^verbatim>\<open>HYP_NO_ORDER\<close> and have reference
    count 0.
  \<^item> \<open>inv_buddies\<close>: the spec's invariant 3 for the heads inside the range.
  \<^item> \<open>inv_external\<close>: the group of a free head outside the range does not reach into
    the range (none of its split buddies is in range).
\<close>

definition in_range :: "hyp_state \<Rightarrow> pfn \<Rightarrow> bool" where
  "in_range s p \<longleftrightarrow> range_start s \<le> hyp_page_to_phys p \<and> hyp_page_to_phys p < range_end s"

definition inv_lists :: "hyp_state \<Rightarrow> bool" where
  "inv_lists s \<longleftrightarrow>
     unat (max_order s) \<le> MAX_ORDER
     \<and> (\<forall>k. distinct (free_area s k))
     \<and> (\<forall>k p. p \<in> set (free_area s k) \<longrightarrow>
           k \<le> unat (max_order s) \<and> unat (order (vmemmap s p)) = k
           \<and> refcount (vmemmap s p) = 0)"

definition inv_blocks :: "hyp_state \<Rightarrow> bool" where
  "inv_blocks s \<longleftrightarrow>
     (\<forall>p. in_range s p \<and> order (vmemmap s p) \<noteq> HYP_NO_ORDER \<longrightarrow>
        unat (order (vmemmap s p)) \<le> unat (max_order s)
        \<and> 2 ^ unat (order (vmemmap s p)) dvd p
        \<and> (\<forall>t. p < t \<and> t < p + 2 ^ unat (order (vmemmap s p)) \<longrightarrow>
              in_range s t \<and> order (vmemmap s t) = HYP_NO_ORDER \<and> refcount (vmemmap s t) = 0))"

definition inv_buddies :: "hyp_state \<Rightarrow> bool" where
  "inv_buddies s \<longleftrightarrow>
     (\<forall>k p b. k < unat (max_order s) \<and> p \<in> set (free_area s k) \<and> in_range s p
        \<and> uu_find_buddy_nocheck s p (of_nat k) = Some b \<longrightarrow> b \<notin> set (free_area s k))"

definition inv_external :: "hyp_state \<Rightarrow> bool" where
  "inv_external s \<longleftrightarrow>
     (\<forall>k p j. p \<in> set (free_area s k) \<and> \<not> in_range s p \<and> j < k \<longrightarrow>
        uu_find_buddy_nocheck s p (of_nat j) = None)"

definition pool_inv :: "hyp_state \<Rightarrow> bool" where
  "pool_inv s \<longleftrightarrow> inv_lists s \<and> inv_blocks s \<and> inv_buddies s \<and> inv_external s"

text \<open>
  What the callers of \<^verbatim>\<open>put\<close> and \<^verbatim>\<open>split\<close> owe: they hold a reference to the page, and
  the group of a page outside the range stays outside the range and off the free
  lists.
\<close>

definition put_ok :: "hyp_state \<Rightarrow> pfn \<Rightarrow> bool" where
  "put_ok s p \<longleftrightarrow>
     refcount (vmemmap s p) \<noteq> 0
     \<and> (in_range s p
        \<or> (\<forall>j. j < unat (order (vmemmap s p)) \<longrightarrow> uu_find_buddy_nocheck s p (of_nat j) = None))"

definition split_ok :: "hyp_state \<Rightarrow> pfn \<Rightarrow> bool" where
  "split_ok s p \<longleftrightarrow>
     refcount (vmemmap s p) \<noteq> 0 \<and> order (vmemmap s p) \<le> max_order s
     \<and> (in_range s p
        \<or> (\<forall>i. 0 < i \<and> i < 2 ^ unat (order (vmemmap s p)) \<longrightarrow>
              \<not> in_range s (p + i) \<and> (\<forall>k. p + i \<notin> set (free_area s k))))"

text \<open>
  The loop invariant of the coalescing loop: besides the well-formed pool there is one
  detached group, headed by \<open>p\<close> with \<open>2 ^ k\<close> frames. All its frames, \<open>p\<close> included,
  carry \<^verbatim>\<open>HYP_NO_ORDER\<close> and reference count 0; \<open>p\<close> is on no list and inside no other
  group.
\<close>

definition detached :: "hyp_state \<Rightarrow> pfn \<Rightarrow> nat \<Rightarrow> bool" where
  "detached s p k \<longleftrightarrow>
     in_range s p \<and> order (vmemmap s p) = HYP_NO_ORDER \<and> refcount (vmemmap s p) = 0
     \<and> k \<le> unat (max_order s) \<and> 2 ^ k dvd p
     \<and> (\<forall>t. p < t \<and> t < p + 2 ^ k \<longrightarrow>
           in_range s t \<and> order (vmemmap s t) = HYP_NO_ORDER \<and> refcount (vmemmap s t) = 0)
     \<and> (\<forall>j. p \<notin> set (free_area s j))
     \<and> (\<forall>q. in_range s q \<and> order (vmemmap s q) \<noteq> HYP_NO_ORDER \<longrightarrow>
           \<not> (q < p \<and> p < q + 2 ^ unat (order (vmemmap s q))))"

text \<open>
  What the caller of the initialisation owes. \<open>pool_max_order\<close> is the \<open>max_order\<close>
  that \<^verbatim>\<open>__hyp_pool_init\<close> computes. The list heads above it are not initialised by
  the code and have to be empty; for \<^verbatim>\<open>hyp_pool_init\<close> the size of the range has to
  fit the 32-bit shift, and the metadata entries of the frames of the range have to
  carry order 0, which the code does not write.
\<close>

definition pool_max_order :: "32 word \<Rightarrow> nat" where
  "pool_max_order nr_pages =
     min MAX_ORDER (get_order (unat (push_bit PAGE_SHIFT nr_pages :: 32 word)))"

definition init_empty_ok :: "hyp_state \<Rightarrow> 32 word \<Rightarrow> bool" where
  "init_empty_ok s nr_pages \<longleftrightarrow> (\<forall>k. pool_max_order nr_pages < k \<longrightarrow> free_area s k = [])"

definition init_ok :: "hyp_state \<Rightarrow> pfn \<Rightarrow> 32 word \<Rightarrow> bool" where
  "init_ok s pfn nr_pages \<longleftrightarrow>
     init_empty_ok s nr_pages \<and> unat nr_pages < 2 ^ 20
     \<and> (\<forall>i. i < unat nr_pages \<longrightarrow> order (vmemmap s (pfn + i)) = 0)"

subsection \<open>The code past the undefined shift\<close>

text \<open>
  The shift \<^verbatim>\<open>1 << p->order\<close> of \<^verbatim>\<open>__hyp_put_page\<close> is undefined for a count of 31 or
  more, and \<open>uu_hyp_put_page\<close> stops there. The compiled code does not stop: the shift
  leaves some value, the counter takes it, and the caller goes on (\<^verbatim>\<open>__hyp_pool_init\<close>
  with its next frame). The following variants follow the code past that point. They
  take the value \<open>u n\<close> that the shift leaves for a count \<open>n\<close> of 31 or more as a
  parameter and are otherwise \<^verbatim>\<open>__hyp_put_page\<close>, \<^verbatim>\<open>hyp_put_page\<close> and the
  \<^verbatim>\<open>hyp_pool_init\<close> case of \<^verbatim>\<open>__hyp_pool_init\<close> as above.
\<close>

definition shl_cont :: "(nat \<Rightarrow> 64 word) \<Rightarrow> 8 word \<Rightarrow> 64 word" where
  "shl_cont u n = (case shl_int n of None \<Rightarrow> u (unat n) | Some v \<Rightarrow> v)"

definition uu_hyp_put_page_cont :: "(nat \<Rightarrow> 64 word) \<Rightarrow> hyp_state \<Rightarrow> pfn \<Rightarrow> error + hyp_state" where
  "uu_hyp_put_page_cont u s p =
     (let (zero, s1) = hyp_page_ref_dec_and_test s p
      in if zero then
           (case uu_hyp_attach_page s1 p of
              Inl e \<Rightarrow> Inl e
            | Inr s2 \<Rightarrow> Inr (s2\<lparr>free_pages := free_pages s2 + shl_cont u (order (vmemmap s2 p))\<rparr>))
         else Inr s1)"

definition hyp_put_page_cont :: "(nat \<Rightarrow> 64 word) \<Rightarrow> hyp_state \<Rightarrow> nat \<Rightarrow> error + hyp_state" where
  "hyp_put_page_cont u s addr =
     (let p = hyp_virt_to_page addr
      in if order (vmemmap s p) > max_order s then Inl BUG else uu_hyp_put_page_cont u s p)"

fun put_pages_cont :: "(nat \<Rightarrow> 64 word) \<Rightarrow> hyp_state \<Rightarrow> pfn list \<Rightarrow> error + hyp_state" where
  "put_pages_cont u s [] = Inr s"
| "put_pages_cont u s (p # ps) =
     (case uu_hyp_put_page_cont u s p of Inl e \<Rightarrow> Inl e | Inr s' \<Rightarrow> put_pages_cont u s' ps)"

definition hyp_pool_init_cont ::
    "(nat \<Rightarrow> 64 word) \<Rightarrow> hyp_state \<Rightarrow> nat \<Rightarrow> 32 word \<Rightarrow> 32 word \<Rightarrow> error + hyp_state" where
  "hyp_pool_init_cont u s pfn nr_pages reserved_pages =
     (let phys = hyp_pfn_to_phys pfn;
          bytes = unat (push_bit PAGE_SHIFT nr_pages :: 32 word);
          mo = min MAX_ORDER (get_order bytes);
          s1 = s\<lparr>max_order := of_nat mo,
                 free_area := (\<lambda>k. if k \<le> mo then [] else free_area s k)\<rparr>;
          s2 = s1\<lparr>range_start := phys, range_end := phys + bytes\<rparr>;
          p = hyp_phys_to_page phys;
          s3 = fold (\<lambda>i s'. hyp_set_page_refcounted s' (p + i)) [0..<unat nr_pages] s2
      in put_pages_cont u s3 (map (\<lambda>i. p + i) [unat reserved_pages..<unat nr_pages]))"

subsection \<open>The bytes of the free groups\<close>

text \<open>
  The zeroing of the pool is stated on the bytes of \<open>mem\<close>. The group of a head \<open>p\<close>
  of order \<open>k\<close> is the frames \<open>p, \<dots>, p + 2 ^ k - 1\<close> (\<open>group_frame\<close>) and the bytes of
  these frames (\<open>group_byte\<close>); the list node of \<open>p\<close> is the first 16 bytes of its body
  (\<open>node_byte\<close>).
\<close>

definition group_frame :: "pfn \<Rightarrow> nat \<Rightarrow> pfn \<Rightarrow> bool" where
  "group_frame p k t \<longleftrightarrow> p \<le> t \<and> t < p + 2 ^ k"

definition group_byte :: "pfn \<Rightarrow> nat \<Rightarrow> nat \<Rightarrow> bool" where
  "group_byte p k x \<longleftrightarrow> group_frame p k (hyp_virt_to_page x)"

definition node_byte :: "pfn \<Rightarrow> nat \<Rightarrow> bool" where
  "node_byte p x \<longleftrightarrow> hyp_page_to_virt p \<le> x \<and> x < hyp_page_to_virt p + 16"

text \<open>
  The zeroed pool, \<open>zero_inv\<close>: the pool is well formed, and
  \<^item> \<open>inv_free\<close>: every head inside the range with reference count 0 is on the list
    of its order (the spec's invariant 2);
  \<^item> \<open>mem_inv\<close>: every byte of a free group is zero, except the bytes of the list node
    of its head;
  \<^item> \<open>ext_out\<close>, \<open>ext_apart\<close>: the free groups whose head is outside the range have no
    frame inside the range and do not overlap each other.
\<close>

definition mem_inv :: "hyp_state \<Rightarrow> bool" where
  "mem_inv s \<longleftrightarrow>
     (\<forall>k p x. p \<in> set (free_area s k) \<and> group_byte p k x \<and> \<not> node_byte p x \<longrightarrow> mem s x = 0)"

definition ext_out :: "hyp_state \<Rightarrow> bool" where
  "ext_out s \<longleftrightarrow>
     (\<forall>k p t. p \<in> set (free_area s k) \<and> \<not> in_range s p \<and> group_frame p k t \<longrightarrow> \<not> in_range s t)"

definition ext_apart :: "hyp_state \<Rightarrow> bool" where
  "ext_apart s \<longleftrightarrow>
     (\<forall>k p j q t. p \<in> set (free_area s k) \<and> q \<in> set (free_area s j)
        \<and> \<not> in_range s p \<and> \<not> in_range s q \<and> p \<noteq> q \<longrightarrow>
        \<not> (group_frame p k t \<and> group_frame q j t))"

definition inv_free :: "hyp_state \<Rightarrow> bool" where
  "inv_free s \<longleftrightarrow>
     (\<forall>p. in_range s p \<and> order (vmemmap s p) \<noteq> HYP_NO_ORDER \<and> refcount (vmemmap s p) = 0 \<longrightarrow>
        p \<in> set (free_area s (unat (order (vmemmap s p)))))"

definition zero_inv :: "hyp_state \<Rightarrow> bool" where
  "zero_inv s \<longleftrightarrow> pool_inv s \<and> inv_free s \<and> mem_inv s \<and> ext_out s \<and> ext_apart s"

text \<open>
  What the caller of \<^verbatim>\<open>put\<close> owes for a page outside the range: no frame of its group
  is inside the range or in a free group.
\<close>

definition put_apart :: "hyp_state \<Rightarrow> pfn \<Rightarrow> bool" where
  "put_apart s p \<longleftrightarrow>
     in_range s p
     \<or> (\<forall>t. group_frame p (unat (order (vmemmap s p))) t \<longrightarrow>
           \<not> in_range s t \<and> (\<forall>j q. q \<in> set (free_area s j) \<longrightarrow> \<not> group_frame q j t))"

text \<open>
  Auxiliary predicates of the proofs: the free groups are pairwise disjoint
  (\<open>blocks_apart\<close>); a group shares no frame with a free group (\<open>apart\<close>); every byte of
  a group is zero (\<open>zeroed\<close>); and the loop invariants of the coalescing loop (the
  detached group is zeroed) and of the split loop (the head \<open>p\<close> being split is on no
  list, every other free head inside the range is on its list, and the group of \<open>p\<close> is
  zeroed).
\<close>

definition blocks_apart :: "hyp_state \<Rightarrow> bool" where
  "blocks_apart s \<longleftrightarrow>
     (\<forall>k p j q t. p \<in> set (free_area s k) \<and> q \<in> set (free_area s j) \<and> p \<noteq> q \<longrightarrow>
        \<not> (group_frame p k t \<and> group_frame q j t))"

definition apart :: "hyp_state \<Rightarrow> pfn \<Rightarrow> nat \<Rightarrow> bool" where
  "apart s p k \<longleftrightarrow>
     (\<forall>j q t. q \<in> set (free_area s j) \<longrightarrow> \<not> (group_frame p k t \<and> group_frame q j t))"

definition zeroed :: "hyp_state \<Rightarrow> pfn \<Rightarrow> nat \<Rightarrow> bool" where
  "zeroed s p k \<longleftrightarrow> (\<forall>x. group_byte p k x \<longrightarrow> mem s x = 0)"

definition coalescing :: "hyp_state \<Rightarrow> pfn \<Rightarrow> nat \<Rightarrow> bool" where
  "coalescing s p k \<longleftrightarrow>
     pool_inv s \<and> detached s p k \<and> inv_free s \<and> mem_inv s \<and> ext_out s \<and> ext_apart s
     \<and> zeroed s p k"

definition splitting :: "hyp_state \<Rightarrow> pfn \<Rightarrow> bool" where
  "splitting s p \<longleftrightarrow>
     pool_inv s \<and> in_range s p \<and> order (vmemmap s p) \<noteq> HYP_NO_ORDER
     \<and> (\<forall>j. p \<notin> set (free_area s j))
     \<and> (\<forall>q. q \<noteq> p \<and> in_range s q \<and> order (vmemmap s q) \<noteq> HYP_NO_ORDER
            \<and> refcount (vmemmap s q) = 0 \<longrightarrow>
            q \<in> set (free_area s (unat (order (vmemmap s q)))))
     \<and> mem_inv s \<and> ext_out s \<and> ext_apart s \<and> zeroed s p (unat (order (vmemmap s p)))"

section \<open>Properties\<close>

subsection \<open>Field projections of the state updates\<close>

lemma set_order_proj [simp]:
  "free_area (set_order s p v) = free_area s"
  "range_start (set_order s p v) = range_start s"
  "range_end (set_order s p v) = range_end s"
  "free_pages (set_order s p v) = free_pages s"
  "max_order (set_order s p v) = max_order s"
  "area_addr (set_order s p v) = area_addr s"
  "mem (set_order s p v) = mem s"
  "order (vmemmap (set_order s p v) q) = (if q = p then v else order (vmemmap s q))"
  "refcount (vmemmap (set_order s p v) q) = refcount (vmemmap s q)"
  by (simp_all add: set_order_def)

lemma set_refcount_proj [simp]:
  "free_area (set_refcount s p v) = free_area s"
  "range_start (set_refcount s p v) = range_start s"
  "range_end (set_refcount s p v) = range_end s"
  "free_pages (set_refcount s p v) = free_pages s"
  "max_order (set_refcount s p v) = max_order s"
  "area_addr (set_refcount s p v) = area_addr s"
  "mem (set_refcount s p v) = mem s"
  "refcount (vmemmap (set_refcount s p v) q) = (if q = p then v else refcount (vmemmap s q))"
  "order (vmemmap (set_refcount s p v) q) = order (vmemmap s q)"
  by (simp_all add: set_refcount_def)

lemma page_remove_from_list_proj [simp]:
  "free_area (page_remove_from_list s p) k = remove1 p (free_area s k)"
  "range_start (page_remove_from_list s p) = range_start s"
  "range_end (page_remove_from_list s p) = range_end s"
  "free_pages (page_remove_from_list s p) = free_pages s"
  "max_order (page_remove_from_list s p) = max_order s"
  "area_addr (page_remove_from_list s p) = area_addr s"
  "vmemmap (page_remove_from_list s p) = vmemmap s"
  by (simp_all add: page_remove_from_list_def list_del_entry_def Let_def)

lemma INIT_LIST_HEAD_node_proj [simp]:
  "free_area (INIT_LIST_HEAD_node s n) = free_area s"
  "range_start (INIT_LIST_HEAD_node s n) = range_start s"
  "range_end (INIT_LIST_HEAD_node s n) = range_end s"
  "free_pages (INIT_LIST_HEAD_node s n) = free_pages s"
  "max_order (INIT_LIST_HEAD_node s n) = max_order s"
  "area_addr (INIT_LIST_HEAD_node s n) = area_addr s"
  "vmemmap (INIT_LIST_HEAD_node s n) = vmemmap s"
  by (simp_all add: INIT_LIST_HEAD_node_def)

lemma list_add_tail_proj [simp]:
  "free_area (list_add_tail s p k) j = (if j = k then free_area s k @ [p] else free_area s j)"
  "range_start (list_add_tail s p k) = range_start s"
  "range_end (list_add_tail s p k) = range_end s"
  "free_pages (list_add_tail s p k) = free_pages s"
  "max_order (list_add_tail s p k) = max_order s"
  "area_addr (list_add_tail s p k) = area_addr s"
  "vmemmap (list_add_tail s p k) = vmemmap s"
  by (simp_all add: list_add_tail_def Let_def)

lemma hyp_set_page_refcounted_proj [simp]:
  "free_area (hyp_set_page_refcounted s p) = free_area s"
  "range_start (hyp_set_page_refcounted s p) = range_start s"
  "range_end (hyp_set_page_refcounted s p) = range_end s"
  "free_pages (hyp_set_page_refcounted s p) = free_pages s"
  "max_order (hyp_set_page_refcounted s p) = max_order s"
  "area_addr (hyp_set_page_refcounted s p) = area_addr s"
  "mem (hyp_set_page_refcounted s p) = mem s"
  "refcount (vmemmap (hyp_set_page_refcounted s p) q) = (if q = p then 1 else refcount (vmemmap s q))"
  "order (vmemmap (hyp_set_page_refcounted s p) q) = order (vmemmap s q)"
  by (simp_all add: hyp_set_page_refcounted_def)

lemma boot_state_proj [simp]:
  "free_area boot_state k = []"
  "range_start boot_state = 0"
  "range_end boot_state = 0"
  "free_pages boot_state = 0"
  "max_order boot_state = 0"
  "order (vmemmap boot_state q) = 0"
  "refcount (vmemmap boot_state q) = 0"
  by (simp_all add: boot_state_def)

lemma two_frames_proj [simp]:
  "free_area two_frames k = []"
  "range_start two_frames = 0"
  "range_end two_frames = 8192"
  "free_pages two_frames = 0"
  "max_order two_frames = 1"
  "order (vmemmap two_frames q) = 0"
  "refcount (vmemmap two_frames q) = (if q = 1 \<or> q = 0 then 1 else 0)"
  by (simp_all add: two_frames_def)

lemma pair_free_proj [simp]:
  "free_area pair_free k = (if k = 1 then [0] else [])"
  "range_start pair_free = 0"
  "range_end pair_free = 8192"
  "free_pages pair_free = 2"
  "max_order pair_free = 1"
  "order (vmemmap pair_free q) = (if q = 0 then 1 else HYP_NO_ORDER)"
  "refcount (vmemmap pair_free q) = 0"
  by (simp_all add: pair_free_def boot_state_def)

subsection \<open>The operations as equations on the fields\<close>

lemmas addr_defs = PAGE_SHIFT_def PAGE_SIZE_def hyp_pfn_to_phys_def hyp_page_to_phys_def
  hyp_phys_to_page_def hyp_page_to_virt_def hyp_virt_to_page_def node_to_page_def

lemma buddy_phys:
  "push_bit 12 p XOR push_bit n (4096::nat) = push_bit 12 (p XOR push_bit n 1)"
proof -
  have a: "push_bit n (4096::nat) = push_bit 12 (push_bit n 1)"
    by (simp add: push_bit_eq_mult)
  show ?thesis
    unfolding a by (simp only: push_bit_xor)
qed

lemma nocheck_eq:
  "uu_find_buddy_nocheck s p ord =
     (if push_bit 12 (p XOR push_bit (unat ord) 1) < range_start s
         \<or> range_end s \<le> push_bit 12 (p XOR push_bit (unat ord) 1)
      then None else Some (p XOR push_bit (unat ord) 1))"
proof -
  have d: "drop_bit 12 (push_bit 12 (p XOR push_bit (unat ord) 1)) = p XOR push_bit (unat ord) (1::nat)"
    by (simp add: drop_bit_push_bit)
  show ?thesis
    unfolding uu_find_buddy_nocheck_def addr_defs Let_def buddy_phys d by (simp only: not_le)
qed

lemma avail_eq:
  "uu_find_buddy_avail s p ord =
     (case uu_find_buddy_nocheck s p ord of
        None \<Rightarrow> None
      | Some b \<Rightarrow> if order (vmemmap s b) = ord \<and> refcount (vmemmap s b) = 0 then Some b else None)"
  by (simp add: uu_find_buddy_avail_def hyp_refcount_get_def split: option.splits)

lemma dec_eq:
  "hyp_page_ref_dec_and_test s p =
     (refcount (vmemmap s p) = 1, set_refcount s p (refcount (vmemmap s p) - 1))"
  by (simp add: hyp_page_ref_dec_and_test_def Let_def)

lemma attach_eq:
  "uu_hyp_attach_page s p =
     (let ord = order (vmemmap s p);
          s1 = s\<lparr>mem := memset_zero (hyp_page_to_virt p) (push_bit (unat ord) PAGE_SIZE) (mem s)\<rparr>
      in if push_bit 12 p < range_start s \<or> range_end s \<le> push_bit 12 p
         then page_add_to_list (set_order s1 p ord) p (unat ord)
         else (case coalesce (set_order s1 p HYP_NO_ORDER) p ord of
                 (s3, p', ord') \<Rightarrow> page_add_to_list (set_order s3 p' ord') p' (unat ord')))"
  by (simp add: uu_hyp_attach_page_def Let_def addr_defs)

lemma put_eq:
  "uu_hyp_put_page s p =
     (if refcount (vmemmap s p) = 1 then
        (case uu_hyp_attach_page (set_refcount s p 0) p of
           Inl e \<Rightarrow> Inl e
         | Inr s2 \<Rightarrow>
             (if unat (order (vmemmap s2 p)) < 31
              then Inr (s2\<lparr>free_pages := free_pages s2 + push_bit (unat (order (vmemmap s2 p))) 1\<rparr>)
              else Inl (Shift_undefined (unat (order (vmemmap s2 p))))))
      else Inr (set_refcount s p (refcount (vmemmap s p) - 1)))"
  by (simp add: uu_hyp_put_page_def dec_eq shl_int_def split: sum.splits)

lemma hyp_put_page_eq:
  "hyp_put_page s addr =
     (if order (vmemmap s (drop_bit 12 addr)) > max_order s then Inl BUG
      else uu_hyp_put_page s (drop_bit 12 addr))"
  by (simp add: hyp_put_page_def Let_def addr_defs)

lemma extract_eq:
  "uu_hyp_extract_page s p ord =
     (case extract_loop (page_remove_from_list s p) p ord of Inl e \<Rightarrow> Inl e | Inr s' \<Rightarrow> Inr (p, s'))"
  by (simp add: uu_hyp_extract_page_def)

lemma alloc_eq:
  "hyp_alloc_pages s ord =
     (case scan_free_area s (unat ord) of
        Inl e \<Rightarrow> Inl e
      | Inr i \<Rightarrow>
          if i > unat (max_order s) then Inr (None, s)
          else
            (case extract_loop (page_remove_from_list s (hd (free_area s i))) (hd (free_area s i)) ord of
               Inl e \<Rightarrow> Inl e
             | Inr s1 \<Rightarrow>
                 (if unat (order (vmemmap s1 (hd (free_area s i)))) < 31
                  then Inr (Some (push_bit 12 (hd (free_area s i))),
                         (hyp_set_page_refcounted s1 (hd (free_area s i)))
                           \<lparr>free_pages := free_pages s1
                              - push_bit (unat (order (vmemmap s1 (hd (free_area s i))))) 1\<rparr>)
                  else Inl (Shift_undefined (unat (order (vmemmap s1 (hd (free_area s i)))))))))"
proof -
  have d: "drop_bit 12 (push_bit 12 q) = q" for q :: nat
    by (simp add: drop_bit_push_bit)
  show ?thesis
    by (cases "scan_free_area s (unat ord)")
      (simp_all add: hyp_alloc_pages_def extract_eq shl_int_def Let_def addr_defs d split: sum.splits)
qed

lemma get_order_four_pages: "get_order 16384 = 2"
  by (simp add: get_order_def PAGE_SIZE_def)

declare ceil_log2.simps [simp del]
declare coalesce.simps [simp del]
declare extract_loop.simps [simp del]
declare scan_free_area.simps [simp del]

lemmas eval_simps = put_eq attach_eq avail_eq nocheck_eq page_add_to_list_def coalesce.simps
  extract_loop.simps scan_free_area.simps MAX_ORDER_def HYP_NO_ORDER_def PAGE_SIZE_def Let_def
  alloc_eq hyp_put_page_eq list_empty_def hyp_split_page_def

lemmas init_simps = hyp_pool_init_def hyp_pool_init_empty_def uu_hyp_pool_init_def PAGE_SHIFT_def
  hyp_pfn_to_phys_def hyp_phys_to_page_def

subsection \<open>The free-page counter\<close>

text \<open>
  Claim C1 (put adds \<open>1 << final_order\<close> to \<open>free_pages\<close>, also when the head after
  coalescing is a lower-addressed page than the one passed to put). The source reads
  \<^verbatim>\<open>p->order\<close> of the page that was passed, after the attach. With frame 0 free at
  order 0 and frame 1 released, the attach makes frame 0 the head of order 1 and leaves
  \<^verbatim>\<open>HYP_NO_ORDER\<close> in frame 1, so the shift count of \<^verbatim>\<open>1 << p->order\<close> is 255: the
  counter is not increased by \<open>1 << 1\<close>.
\<close>

theorem put_lower_buddy_shift:
  "(case uu_hyp_put_page two_frames 0 of
      Inl e \<Rightarrow> False
    | Inr s \<Rightarrow>
        free_area s 0 = [0] \<and> free_pages s = 1 \<and> refcount (vmemmap s 1) = 1
        \<and> (case uu_hyp_attach_page (set_refcount s 1 0) 1 of
              Inl e \<Rightarrow> False
            | Inr s2 \<Rightarrow>
                free_area s2 0 = [] \<and> free_area s2 1 = [0]
                \<and> order (vmemmap s2 0) = 1 \<and> order (vmemmap s2 1) = HYP_NO_ORDER)
        \<and> uu_hyp_put_page s 1 = Inl (Shift_undefined 255))"
  by (simp add: eval_simps)

text \<open>
  Claim C2 (exact accounting of \<open>free_pages\<close>; scenario S1: after
  \<^verbatim>\<open>pool_init(pool, pfn=0, nr_pages=4, reserved_pages=0)\<close> the counter is 4 and one head
  of order 2 sits at frame 0). On a zeroed pool and metadata array the initialiser does
  not reach that state: its second put (frame 1) merges into the head at frame 0 and
  then shifts by the \<^verbatim>\<open>HYP_NO_ORDER\<close> left in frame 1.
\<close>

theorem pool_init_four_frames_shift:
  "hyp_pool_init boot_state 0 4 0 = Inl (Shift_undefined 255)"
  by (simp add: init_simps get_order_four_pages eval_simps upt_rec)

text \<open>
  Claim C9 (split faithfulness: after \<open>split\<close> of an order-\<open>k\<close> head there are \<open>2 ^ k\<close>
  order-0 heads with reference count 1 and the free area is untouched; putting all of
  them restores the pool, the order-\<open>k\<close> head being rebuilt by coalescing). From the
  pool \<open>pair_free\<close>, allocate the order-1 group, split it and put both halves. Putting
  the upper half first rebuilds the order-1 head at frame 0, but the counter ends at 3
  where it was 2 before the allocation; putting the lower half first ends in the shift
  by \<^verbatim>\<open>HYP_NO_ORDER\<close>.
\<close>

theorem split_then_put_miscounts:
  "(case hyp_alloc_pages pair_free 1 of
      Inr (Some a, s1) \<Rightarrow>
        a = 0 \<and> free_pages s1 = 0 \<and> free_area s1 1 = []
        \<and> (case hyp_split_page s1 0 of
              Inr s2 \<Rightarrow>
                order (vmemmap s2 0) = 0 \<and> order (vmemmap s2 1) = 0
                \<and> refcount (vmemmap s2 0) = 1 \<and> refcount (vmemmap s2 1) = 1
                \<and> free_area s2 0 = [] \<and> free_area s2 1 = []
                \<and> (case hyp_put_page s2 4096 of
                      Inr s3 \<Rightarrow>
                        free_area s3 0 = [1] \<and> free_pages s3 = 1
                        \<and> (case hyp_put_page s3 0 of
                              Inr s4 \<Rightarrow>
                                free_area s4 0 = [] \<and> free_area s4 1 = [0] \<and> free_pages s4 = 3
                            | Inl e \<Rightarrow> False)
                    | Inl e \<Rightarrow> False)
                \<and> (case hyp_put_page s2 0 of
                      Inr s3 \<Rightarrow> hyp_put_page s3 4096 = Inl (Shift_undefined 255)
                    | Inl e \<Rightarrow> False)
            | Inl e \<Rightarrow> False)
    | _ \<Rightarrow> False)"
  by (simp add: eval_simps upt_rec)

subsection \<open>Allocation when nothing fits\<close>
lemma scan_empty:
  "unat (max_order s) \<le> MAX_ORDER \<Longrightarrow>
   \<forall>k. i \<le> k \<and> k \<le> unat (max_order s) \<longrightarrow> free_area s k = [] \<Longrightarrow>
   \<exists>j. scan_free_area s i = Inr j \<and> unat (max_order s) < j"
proof (induction s i rule: scan_free_area.induct)
  case (1 s i)
  show ?case
  proof (cases "i \<le> unat (max_order s)")
    case True
    with "1.prems" have e: "list_empty s i" and b: "\<not> i > MAX_ORDER"
      by (auto simp: list_empty_def)
    have "\<forall>k. i + 1 \<le> k \<and> k \<le> unat (max_order s) \<longrightarrow> free_area s k = []"
      using "1.prems"(2) by auto
    from "1.IH" [OF True b e "1.prems"(1) this] show ?thesis
      using True b e by (subst scan_free_area.simps) simp
  next
    case False
    then show ?thesis by (subst scan_free_area.simps) simp
  qed
qed

lemma scan_above: "unat (max_order s) < i \<Longrightarrow> scan_free_area s i = Inr i"
  by (subst scan_free_area.simps) simp

lemma alloc_none:
  assumes "unat (max_order s) \<le> MAX_ORDER"
    and "\<forall>k. unat want \<le> k \<and> k \<le> unat (max_order s) \<longrightarrow> free_area s k = []"
  shows "hyp_alloc_pages s want = Inr (None, s)"
proof -
  from scan_empty [OF assms] obtain j where
    "scan_free_area s (unat want) = Inr j" "unat (max_order s) < j" by blast
  then show ?thesis
    by (simp add: hyp_alloc_pages_def)
qed


text \<open>
  Claim C10: when no free group of order at least \<open>want\<close> exists (every list from
  \<open>want\<close> to \<open>max_order\<close> is empty, which includes every \<open>want\<close> above
  \<open>max_order\<close>), \<^verbatim>\<open>hyp_alloc_pages\<close> returns null and the whole state (lists, metadata,
  counter, memory) is as before. The pool is one whose \<open>max_order\<close> is within the
  \<open>MAX_ORDER + 1\<close> list heads, as every initialised pool is.
\<close>

theorem alloc_null_unchanged:
  assumes "unat (max_order s) \<le> MAX_ORDER \<or> max_order s < want"
    and "\<forall>k. unat want \<le> k \<and> k \<le> unat (max_order s) \<longrightarrow> free_area s k = []"
  shows "hyp_alloc_pages s want = Inr (None, s)"
proof (cases "max_order s < want")
  case True
  then have "unat (max_order s) < unat want"
    by (simp add: word_less_nat_alt)
  then show ?thesis
    by (simp add: hyp_alloc_pages_def scan_above)
next
  case False
  with assms(1) have "unat (max_order s) \<le> MAX_ORDER" by simp
  from scan_empty [OF this assms(2)] obtain j where
    "scan_free_area s (unat want) = Inr j" "unat (max_order s) < j" by blast
  then show ?thesis
    by (simp add: hyp_alloc_pages_def)
qed

theorem alloc_null_unchanged_witness:
  "hyp_alloc_pages two_frames 0 = Inr (None, two_frames) \<and> hyp_alloc_pages pair_free 2 = Inr (None, pair_free)"
  using alloc_null_unchanged [of two_frames 0] alloc_null_unchanged [of pair_free 2]
  by (simp add: MAX_ORDER_def)

subsection \<open>External pages\<close>

lemma virt_page [simp]: "hyp_virt_to_page (hyp_page_to_virt p) = p"
  by (simp add: addr_defs drop_bit_push_bit)

lemma attach_external:
  assumes "hyp_page_to_phys p < range_start s \<or> range_end s \<le> hyp_page_to_phys p"
    and "unat (order (vmemmap s p)) \<le> MAX_ORDER"
  shows "\<exists>s'. uu_hyp_attach_page s p = Inr s'
      \<and> (\<forall>k. free_area s' k =
            (if k = unat (order (vmemmap s p)) then free_area s k @ [p] else free_area s k))
      \<and> (\<forall>q. order (vmemmap s' q) = order (vmemmap s q))
      \<and> (\<forall>q. refcount (vmemmap s' q) = refcount (vmemmap s q))
      \<and> range_start s' = range_start s \<and> range_end s' = range_end s
      \<and> max_order s' = max_order s \<and> free_pages s' = free_pages s"
  using assms by (simp add: attach_eq page_add_to_list_def Let_def addr_defs)

lemma put_external_step:
  assumes "range_end t = 0" "refcount (vmemmap t p) = 1" "order (vmemmap t p) = 0"
  shows "\<exists>t'. hyp_put_page t (hyp_page_to_virt p) = Inr t'
      \<and> (\<forall>k. free_area t' k = (if k = 0 then free_area t 0 @ [p] else free_area t k))
      \<and> (\<forall>q. order (vmemmap t' q) = order (vmemmap t q))
      \<and> (\<forall>q. refcount (vmemmap t' q) = (if q = p then 0 else refcount (vmemmap t q)))
      \<and> range_start t' = range_start t \<and> range_end t' = 0
      \<and> max_order t' = max_order t \<and> free_pages t' = free_pages t + 1"
proof -
  let ?t1 = "set_refcount t p 0"
  have "hyp_page_to_phys p < range_start ?t1 \<or> range_end ?t1 \<le> hyp_page_to_phys p"
    using assms(1) by simp
  moreover have "unat (order (vmemmap ?t1 p)) \<le> MAX_ORDER"
    using assms(3) by simp
  ultimately obtain s' where a: "uu_hyp_attach_page ?t1 p = Inr s'"
    and f: "\<forall>k. free_area s' k =
            (if k = unat (order (vmemmap ?t1 p)) then free_area ?t1 k @ [p] else free_area ?t1 k)"
    and o: "\<forall>q. order (vmemmap s' q) = order (vmemmap ?t1 q)"
    and r: "\<forall>q. refcount (vmemmap s' q) = refcount (vmemmap ?t1 q)"
    and rest: "range_start s' = range_start ?t1" "range_end s' = range_end ?t1"
      "max_order s' = max_order ?t1" "free_pages s' = free_pages ?t1"
    using attach_external [of p ?t1] by blast
  show ?thesis
    using assms a f o r rest by (simp add: hyp_put_page_def put_eq)
qed

lemma put_external_all:
  "range_end t = 0 \<Longrightarrow> distinct ps \<Longrightarrow>
   \<forall>p\<in>set ps. refcount (vmemmap t p) = 1 \<and> order (vmemmap t p) = 0 \<Longrightarrow>
   \<exists>t'. put_addrs t (map hyp_page_to_virt ps) = Inr t'
      \<and> (\<forall>k. free_area t' k = (if k = 0 then free_area t 0 @ ps else free_area t k))
      \<and> (\<forall>q. order (vmemmap t' q) = order (vmemmap t q))
      \<and> range_start t' = range_start t \<and> range_end t' = 0
      \<and> max_order t' = max_order t \<and> free_pages t' = free_pages t + of_nat (length ps)"
proof (induction ps arbitrary: t)
  case Nil
  then show ?case by simp
next
  case (Cons p ps)
  from Cons.prems obtain t1 where s: "hyp_put_page t (hyp_page_to_virt p) = Inr t1"
    and f: "\<forall>k. free_area t1 k = (if k = 0 then free_area t 0 @ [p] else free_area t k)"
    and o: "\<forall>q. order (vmemmap t1 q) = order (vmemmap t q)"
    and r: "\<forall>q. refcount (vmemmap t1 q) = (if q = p then 0 else refcount (vmemmap t q))"
    and rest: "range_start t1 = range_start t" "range_end t1 = 0"
      "max_order t1 = max_order t" "free_pages t1 = free_pages t + 1"
    using put_external_step [of t p] by auto
  have "\<forall>q\<in>set ps. refcount (vmemmap t1 q) = 1 \<and> order (vmemmap t1 q) = 0"
    using Cons.prems o r by auto
  with Cons.IH [of t1] rest Cons.prems obtain t' where
    "put_addrs t1 (map hyp_page_to_virt ps) = Inr t'"
    "\<forall>k. free_area t' k = (if k = 0 then free_area t1 0 @ ps else free_area t1 k)"
    "\<forall>q. order (vmemmap t' q) = order (vmemmap t1 q)"
    "range_start t' = range_start t1" "range_end t' = 0"
    "max_order t' = max_order t1" "free_pages t' = free_pages t1 + of_nat (length ps)"
    by auto
  then show ?case
    using s f o rest by (simp add: add.assoc)
qed


lemma init_empty_fields:
  "\<exists>s0. hyp_pool_init_empty s nr = Inr s0
     \<and> range_start s0 = 2 ^ 64 - 1 \<and> range_end s0 = 0
     \<and> unat (max_order s0) \<le> MAX_ORDER
     \<and> (\<forall>k. k \<le> unat (max_order s0) \<longrightarrow> free_area s0 k = [])
     \<and> vmemmap s0 = vmemmap s"
proof -
  define mo where "mo = min MAX_ORDER (get_order (unat (push_bit PAGE_SHIFT nr :: 32 word)))"
  have le: "mo \<le> MAX_ORDER" by (simp add: mo_def)
  then have u: "unat (of_nat mo :: 8 word) = mo"
    by (simp add: unat_of_nat MAX_ORDER_def)
  have "hyp_pool_init_empty s nr =
      Inr (s\<lparr>max_order := of_nat mo, free_area := (\<lambda>k. if k \<le> mo then [] else free_area s k),
             range_start := 2 ^ 64 - 1, range_end := 0\<rparr>)"
    by (simp add: hyp_pool_init_empty_def uu_hyp_pool_init_def Let_def mo_def)
  then show ?thesis
    using le u by simp
qed

lemma alloc_order0_first:
  assumes "free_area s 0 = p # ps" "order (vmemmap s p) = 0"
  shows "\<exists>s'. hyp_alloc_pages s 0 = Inr (Some (hyp_page_to_virt p), s')"
proof -
  have "scan_free_area s 0 = Inr 0"
    using assms by (subst scan_free_area.simps) (simp add: list_empty_def MAX_ORDER_def)
  then show ?thesis
    using assms by (simp add: alloc_eq extract_loop.simps addr_defs)
qed

text \<open>
  Claim C7: a page whose physical address is outside \<open>[range_start, range_end)\<close> is
  attached without coalescing: it is appended to \<open>free_area[order]\<close> and no order
  field changes. After \<^verbatim>\<open>hyp_pool_init_empty\<close> (range \<open>[2 ^ 64 - 1, 0)\<close>) every page
  is outside the range: frames put one after the other all sit in \<open>free_area[0]\<close>, in
  the order of their puts, the lists of the higher orders stay empty, an allocation of
  order 1 returns null and an allocation of order 0 returns the first of them.
\<close>

theorem external_pages_never_coalesce:
  "(\<forall>s p. (hyp_page_to_phys p < range_start s \<or> range_end s \<le> hyp_page_to_phys p)
        \<and> unat (order (vmemmap s p)) \<le> MAX_ORDER \<longrightarrow>
      (\<exists>s'. uu_hyp_attach_page s p = Inr s'
         \<and> (\<forall>k. free_area s' k =
               (if k = unat (order (vmemmap s p)) then free_area s k @ [p] else free_area s k))
         \<and> (\<forall>q. order (vmemmap s' q) = order (vmemmap s q))))
   \<and> (\<forall>s nr. \<exists>s0. hyp_pool_init_empty s nr = Inr s0
        \<and> range_start s0 = 2 ^ 64 - 1 \<and> range_end s0 = 0
        \<and> (\<forall>ps. distinct ps
              \<and> (\<forall>p\<in>set ps. refcount (vmemmap s p) = 1 \<and> order (vmemmap s p) = 0) \<longrightarrow>
            (\<exists>s'. put_addrs s0 (map hyp_page_to_virt ps) = Inr s'
               \<and> free_area s' 0 = ps
               \<and> (\<forall>k. 0 < k \<and> k \<le> unat (max_order s') \<longrightarrow> free_area s' k = [])
               \<and> hyp_alloc_pages s' 1 = Inr (None, s')
               \<and> (ps \<noteq> [] \<longrightarrow>
                    (\<exists>s''. hyp_alloc_pages s' 0 = Inr (Some (hyp_page_to_virt (hd ps)), s''))))))"
proof (intro conjI allI impI)
  fix s :: hyp_state and p :: pfn
  assume "(hyp_page_to_phys p < range_start s \<or> range_end s \<le> hyp_page_to_phys p)
      \<and> unat (order (vmemmap s p)) \<le> MAX_ORDER"
  then show "\<exists>s'. uu_hyp_attach_page s p = Inr s'
      \<and> (\<forall>k. free_area s' k =
            (if k = unat (order (vmemmap s p)) then free_area s k @ [p] else free_area s k))
      \<and> (\<forall>q. order (vmemmap s' q) = order (vmemmap s q))"
    using attach_external [of p s] by blast
next
  fix s :: hyp_state and nr :: "32 word"
  from init_empty_fields [of s nr] obtain s0 where i: "hyp_pool_init_empty s nr = Inr s0"
    and rs: "range_start s0 = 2 ^ 64 - 1" and re: "range_end s0 = 0"
    and mo: "unat (max_order s0) \<le> MAX_ORDER"
    and fe: "\<forall>k. k \<le> unat (max_order s0) \<longrightarrow> free_area s0 k = []"
    and vm: "vmemmap s0 = vmemmap s"
    by blast
  have "\<exists>s'. put_addrs s0 (map hyp_page_to_virt ps) = Inr s'
      \<and> free_area s' 0 = ps
      \<and> (\<forall>k. 0 < k \<and> k \<le> unat (max_order s') \<longrightarrow> free_area s' k = [])
      \<and> hyp_alloc_pages s' 1 = Inr (None, s')
      \<and> (ps \<noteq> [] \<longrightarrow> (\<exists>s''. hyp_alloc_pages s' 0 = Inr (Some (hyp_page_to_virt (hd ps)), s'')))"
    if d: "distinct ps \<and> (\<forall>p\<in>set ps. refcount (vmemmap s p) = 1 \<and> order (vmemmap s p) = 0)" for ps
  proof -
    from d vm have "\<forall>p\<in>set ps. refcount (vmemmap s0 p) = 1 \<and> order (vmemmap s0 p) = 0"
      by simp
    with put_external_all [OF re, of ps] d obtain s' where
      p: "put_addrs s0 (map hyp_page_to_virt ps) = Inr s'"
      and f: "\<forall>k. free_area s' k = (if k = 0 then free_area s0 0 @ ps else free_area s0 k)"
      and o: "\<forall>q. order (vmemmap s' q) = order (vmemmap s0 q)"
      and m: "max_order s' = max_order s0"
      by blast
    have f0: "free_area s' 0 = ps"
      using f fe by simp
    have fk: "\<forall>k. 0 < k \<and> k \<le> unat (max_order s') \<longrightarrow> free_area s' k = []"
      using f fe m by simp
    have n: "hyp_alloc_pages s' 1 = Inr (None, s')"
      using fk mo m by (intro alloc_none) auto
    have "\<exists>s''. hyp_alloc_pages s' 0 = Inr (Some (hyp_page_to_virt (hd ps)), s'')" if "ps \<noteq> []"
    proof -
      from that obtain q qs where "ps = q # qs" by (cases ps) auto
      moreover from this d o vm have "order (vmemmap s' q) = 0" by simp
      ultimately show ?thesis
        using alloc_order0_first [of s' q qs] f0 by simp
    qed
    with p f0 fk n show ?thesis by blast
  qed
  with i rs re show "\<exists>s0. hyp_pool_init_empty s nr = Inr s0
      \<and> range_start s0 = 2 ^ 64 - 1 \<and> range_end s0 = 0
      \<and> (\<forall>ps. distinct ps
            \<and> (\<forall>p\<in>set ps. refcount (vmemmap s p) = 1 \<and> order (vmemmap s p) = 0) \<longrightarrow>
          (\<exists>s'. put_addrs s0 (map hyp_page_to_virt ps) = Inr s'
             \<and> free_area s' 0 = ps
             \<and> (\<forall>k. 0 < k \<and> k \<le> unat (max_order s') \<longrightarrow> free_area s' k = [])
             \<and> hyp_alloc_pages s' 1 = Inr (None, s')
             \<and> (ps \<noteq> [] \<longrightarrow>
                  (\<exists>s''. hyp_alloc_pages s' 0 = Inr (Some (hyp_page_to_virt (hd ps)), s'')))))"
    by blast
qed

lemma get_order_eight_pages: "get_order 32768 = 3"
  by (simp add: get_order_def PAGE_SIZE_def ceil_log2.simps)

lemma two_external_proj [simp]:
  "free_area two_external k = []"
  "range_start two_external = 0"
  "range_end two_external = 0"
  "free_pages two_external = 0"
  "max_order two_external = 0"
  "order (vmemmap two_external q) = 0"
  "refcount (vmemmap two_external q) = (if q = 101 \<or> q = 100 then 1 else 0)"
  by (simp_all add: two_external_def)

theorem external_pages_never_coalesce_witness:
  "(case hyp_pool_init_empty two_external 8 of
      Inr s0 \<Rightarrow>
        (case put_addrs s0 [409600, 413696] of
           Inr s' \<Rightarrow>
             free_area s' 0 = [100, 101] \<and> free_area s' 1 = [] \<and> max_order s' = 3
             \<and> hyp_alloc_pages s' 1 = Inr (None, s')
             \<and> (case hyp_alloc_pages s' 0 of Inr (Some a, s'') \<Rightarrow> a = 409600 | _ \<Rightarrow> False)
         | Inl e \<Rightarrow> False)
    | Inl e \<Rightarrow> False)"
proof -
  from external_pages_never_coalesce obtain s0 where i: "hyp_pool_init_empty two_external 8 = Inr s0"
    and re: "range_end s0 = 0"
    and a: "\<forall>ps. distinct ps
              \<and> (\<forall>p\<in>set ps. refcount (vmemmap two_external p) = 1 \<and> order (vmemmap two_external p) = 0) \<longrightarrow>
            (\<exists>s'. put_addrs s0 (map hyp_page_to_virt ps) = Inr s'
               \<and> free_area s' 0 = ps
               \<and> (\<forall>k. 0 < k \<and> k \<le> unat (max_order s') \<longrightarrow> free_area s' k = [])
               \<and> hyp_alloc_pages s' 1 = Inr (None, s')
               \<and> (ps \<noteq> [] \<longrightarrow>
                    (\<exists>s''. hyp_alloc_pages s' 0 = Inr (Some (hyp_page_to_virt (hd ps)), s''))))"
    by blast
  have d: "distinct [100, 101::nat]
      \<and> (\<forall>p\<in>set [100, 101]. refcount (vmemmap two_external p) = 1 \<and> order (vmemmap two_external p) = 0)"
    by simp
  with a [rule_format, of "[100, 101]"] obtain s' where p: "put_addrs s0 (map hyp_page_to_virt [100, 101]) = Inr s'"
    and f: "free_area s' 0 = [100, 101]"
    and k: "\<forall>k. 0 < k \<and> k \<le> unat (max_order s') \<longrightarrow> free_area s' k = []"
    and n: "hyp_alloc_pages s' 1 = Inr (None, s')"
    and s: "\<exists>s''. hyp_alloc_pages s' 0 = Inr (Some (hyp_page_to_virt (hd [100, 101])), s'')"
    by auto
  have m0: "max_order s0 = 3" and v0: "vmemmap s0 = vmemmap two_external"
    using i by (auto simp: init_simps get_order_eight_pages MAX_ORDER_def)
  have "\<forall>p\<in>set [100, 101]. refcount (vmemmap s0 p) = 1 \<and> order (vmemmap s0 p) = 0"
    using v0 by simp
  with put_external_all [OF re, of "[100, 101]"] p have m: "max_order s' = 3"
    using m0 by auto
  show ?thesis
    using i p f k n s m by (auto simp: addr_defs)
qed

subsection \<open>Attach and extract against the spec's description\<close>

lemma one_free_proj [simp]:
  "free_area one_free k = (if k = 0 then [0] else [])"
  "range_start one_free = 0"
  "range_end one_free = 8192"
  "free_pages one_free = 1"
  "max_order one_free = 1"
  "order (vmemmap one_free q) = 0"
  "refcount (vmemmap one_free q) = (if q = 1 then 1 else 0)"
  by (simp_all add: one_free_def)

lemma external_pair_proj [simp]:
  "free_area external_pair k = []"
  "range_start external_pair = 0"
  "range_end external_pair = 0"
  "free_pages external_pair = 0"
  "max_order external_pair = 0"
  "order (vmemmap external_pair q) = (if q = 100 then 1 else 0)"
  "refcount (vmemmap external_pair q) = (if q = 100 then 1 else 0)"
  by (simp_all add: external_pair_def)

declare spec_coalesce.simps [simp del]
declare spec_split.simps [simp del]

lemma spec_nocheck_eq:
  "spec_find_buddy_nocheck s p (unat ord) = uu_find_buddy_nocheck s p ord"
  by (auto simp: spec_find_buddy_nocheck_def spec_buddy_phys_def uu_find_buddy_nocheck_def
      addr_defs Let_def push_bit_eq_mult drop_bit_eq_div mult.commute)

lemma spec_avail_eq:
  "spec_find_buddy_avail s p (unat ord) = uu_find_buddy_avail s p ord"
  by (auto simp: spec_find_buddy_avail_def avail_eq spec_nocheck_eq word_unat_eq_iff split: option.splits)

lemma unat_succ_guard:
  fixes ord :: "8 word"
  assumes "unat ord + 1 \<le> unat (m :: 8 word)"
  shows "unat (ord + 1) = unat ord + 1"
proof -
  have "unat m < 256"
    using unsigned_less [of m, where ?'a = nat] by simp
  with assms show ?thesis
    by (simp add: unat_word_ariths)
qed

lemma spec_coalesce_eq:
  "spec_coalesce s p (unat ord) = (case coalesce s p ord of (s', p', ord') \<Rightarrow> (s', p', unat ord'))"
proof (induction s p ord rule: coalesce.induct)
  case (1 s p ord)
  show ?case
  proof (cases "unat ord + 1 \<le> unat (max_order s)")
    case False
    then show ?thesis
      by (subst spec_coalesce.simps, subst coalesce.simps) simp
  next
    case True
    note g = this
    show ?thesis
    proof (cases "uu_find_buddy_avail s p ord")
      case None
      with g show ?thesis
        by (subst spec_coalesce.simps, subst coalesce.simps) (simp add: spec_avail_eq)
    next
      case (Some b)
      from "1.IH" [OF g Some] unat_succ_guard [OF g] g Some show ?thesis
        by (subst spec_coalesce.simps, subst coalesce.simps) (simp add: spec_avail_eq)
    qed
  qed
qed

lemma set_order_same [simp]: "set_order s p (order (vmemmap s p)) = s"
  by (simp add: set_order_def)

lemma set_order_mem_same [simp]:
  "set_order (s\<lparr>mem := m\<rparr>) p (order (vmemmap s p)) = s\<lparr>mem := m\<rparr>"
  by (simp add: set_order_def)

lemma attach_spec_eq:
  "uu_hyp_attach_page s p = spec_attach_page s p"
proof -
  have z: "push_bit n PAGE_SIZE = 2 ^ n * PAGE_SIZE" for n
    by (simp add: push_bit_eq_mult mult.commute)
  show ?thesis
  proof (cases "hyp_page_to_phys p < range_start s \<or> range_end s \<le> hyp_page_to_phys p")
    case True
    then show ?thesis
      by (auto simp: uu_hyp_attach_page_def spec_attach_page_def Let_def z)
  next
    case False
    then show ?thesis
      by (auto simp: uu_hyp_attach_page_def spec_attach_page_def Let_def z spec_coalesce_eq
          split: prod.splits)
  qed
qed


text \<open>
  Claim C4: the attach operation of the source is the attach of the spec's section
  4.3. For an in-range head it loops while \<open>order < max_order\<close>, asks
  \<open>find_buddy_avail\<close> (the buddy, only if its address is in range, its order is the
  current order and its reference count is 0), stops on null, and otherwise removes the
  buddy from its free list, sets its order to \<^verbatim>\<open>NO_ORDER\<close>, continues with the
  lower-addressed of the two as head and the order incremented; the final head gets the
  order and is appended to \<open>free_area[order]\<close>.
\<close>

theorem attach_follows_spec:
  "uu_hyp_attach_page s p = spec_attach_page s p
   \<and> uu_find_buddy_avail s p ord = spec_find_buddy_avail s p (unat ord)"
  by (simp add: attach_spec_eq spec_avail_eq)

theorem attach_follows_spec_witness:
  "(case spec_attach_page (set_refcount one_free 1 0) 1 of
      Inr s' \<Rightarrow>
        free_area s' 0 = [] \<and> free_area s' 1 = [0]
        \<and> order (vmemmap s' 0) = 1 \<and> order (vmemmap s' 1) = HYP_NO_ORDER
    | Inl e \<Rightarrow> False)
   \<and> spec_find_buddy_avail (set_refcount one_free 1 0) 1 0 = Some 0"
proof -
  from attach_follows_spec [of "set_refcount one_free 1 0" 1 0]
  have a: "spec_attach_page (set_refcount one_free 1 0) 1 = uu_hyp_attach_page (set_refcount one_free 1 0) 1"
    and b: "spec_find_buddy_avail (set_refcount one_free 1 0) 1 0
      = uu_find_buddy_avail (set_refcount one_free 1 0) 1 0"
    by simp_all
  show ?thesis
    unfolding a b by (simp add: eval_simps)
qed

lemma extract_step:
  "extract_loop s p ord =
     (if order (vmemmap s p) > ord then
        (case uu_find_buddy_nocheck s p (order (vmemmap s p) - 1) of
           None \<Rightarrow> Inr s
         | Some buddy \<Rightarrow>
             (case page_add_to_list
                     (set_order (set_order s p (order (vmemmap s p) - 1)) buddy (order (vmemmap s p) - 1))
                     buddy (unat (order (vmemmap s p) - 1)) of
                Inl e \<Rightarrow> Inl e
              | Inr s3 \<Rightarrow> extract_loop s3 p ord))
      else Inr s)"
  by (subst extract_loop.simps) (simp add: Let_def split: option.splits)

lemma extract_loop_eq:
  "extract_loop s p ord = spec_split s p (unat ord)"
proof (induction s p ord rule: extract_loop.induct)
  case (1 s p ord)
  let ?o = "order (vmemmap s p)"
  show ?case
  proof (cases "ord < ?o")
    case False
    then have "\<not> unat ord < unat ?o"
      by (simp add: word_less_nat_alt)
    with False show ?thesis
      by (subst extract_step, subst spec_split.simps) (simp add: Let_def)
  next
    case True
    then have lt: "unat ord < unat ?o"
      by (simp add: word_less_nat_alt)
    then have nz: "?o \<noteq> 0"
      by auto
    have u: "unat (?o - 1) = unat ?o - 1"
      using nz by (rule unat_minus_one)
    have w: "(of_nat (unat ?o - 1) :: 8 word) = ?o - 1"
      using of_nat_unat [of "?o - 1", where ?'a = "8 word"] u by simp
    have n: "spec_find_buddy_nocheck s p (unat ?o - 1) = uu_find_buddy_nocheck s p (?o - 1)"
      using spec_nocheck_eq [of s p "?o - 1"] u by simp
    show ?thesis
    proof (cases "uu_find_buddy_nocheck s p (?o - 1)")
      case None
      with True lt n show ?thesis
        by (subst extract_step, subst spec_split.simps) (simp add: Let_def)
    next
      case (Some b)
      let ?s2 = "set_order (set_order s p (?o - 1)) b (?o - 1)"
      show ?thesis
      proof (cases "page_add_to_list ?s2 b (unat (?o - 1))")
        case (Inl e)
        with True lt n Some u w show ?thesis
          by (subst extract_step, subst spec_split.simps) (simp add: Let_def)
      next
        case (Inr s3)
        have a: "page_add_to_list
            (set_order (set_order s p (?o - 1)) b (order (vmemmap (set_order s p (?o - 1)) p)))
            b (unat (order (vmemmap (set_order (set_order s p (?o - 1)) b
                  (order (vmemmap (set_order s p (?o - 1)) p))) b))) = Inr s3"
          using Inr by simp
        from "1.IH" [OF True Some refl refl a]
        have "extract_loop s3 p ord = spec_split s3 p (unat ord)" .
        with True lt n Some u w Inr show ?thesis
          by (subst extract_step, subst spec_split.simps) (simp add: Let_def)
      qed
    qed
  qed
qed

text \<open>
  Claim C5: the extraction of the source is the extraction of the spec's section 4.4.
  It removes \<open>p\<close> from its list and, while \<open>p.order > want_order\<close>, looks up the buddy
  of order \<open>p.order - 1\<close> without checks (the entry at
  \<open>phys(p) XOR (PAGE_SIZE << (p.order - 1))\<close>, or null when that address is outside the
  range), decrements \<open>p.order\<close>, gives the buddy the new order and appends it to the
  free list of that order; when the lookup returns null it stops and returns the page
  at the order it has.
\<close>

theorem extract_follows_spec:
  "uu_hyp_extract_page s p ord = spec_extract_page s p (unat ord)
   \<and> uu_find_buddy_nocheck s p ord = spec_find_buddy_nocheck s p (unat ord)"
  by (simp add: uu_hyp_extract_page_def spec_extract_page_def extract_loop_eq spec_nocheck_eq)

theorem extract_follows_spec_witness:
  "(case spec_extract_page pair_free 0 0 of
      Inr (p, s') \<Rightarrow>
        p = 0 \<and> free_area s' 0 = [1] \<and> free_area s' 1 = []
        \<and> order (vmemmap s' 0) = 0 \<and> order (vmemmap s' 1) = 0
    | Inl e \<Rightarrow> False)
   \<and> spec_find_buddy_nocheck pair_free 0 0 = Some 1
   \<and> spec_find_buddy_nocheck pair_free 0 1 = None"
proof -
  from extract_follows_spec [of pair_free 0 0] extract_follows_spec [of pair_free 0 1]
  have a: "spec_extract_page pair_free 0 0 = uu_hyp_extract_page pair_free 0 0"
    and b: "spec_find_buddy_nocheck pair_free 0 0 = uu_find_buddy_nocheck pair_free 0 0"
    and c: "spec_find_buddy_nocheck pair_free 0 1 = uu_find_buddy_nocheck pair_free 0 1"
    by simp_all
  show ?thesis
    unfolding a b c by (simp add: eval_simps extract_eq)
qed

subsection \<open>Allocation\<close>

lemma xor_bit_neq: "p XOR (2::nat) ^ n \<noteq> p"
proof
  assume "p XOR 2 ^ n = p"
  then have "p XOR (p XOR 2 ^ n) = p XOR p" by simp
  then have "(2::nat) ^ n = 0"
    by (simp add: xor.assoc [symmetric])
  then show False by simp
qed

lemma nocheck_neq: "uu_find_buddy_nocheck s p ord = Some b \<Longrightarrow> b \<noteq> p"
  by (auto simp: nocheck_eq xor_bit_neq split: if_splits)

lemma nocheck_range_only:
  "range_start t = range_start s \<Longrightarrow> range_end t = range_end s \<Longrightarrow>
   uu_find_buddy_nocheck t p ord = uu_find_buddy_nocheck s p ord"
  by (simp add: nocheck_eq)

lemma page_add_to_list_proj:
  assumes "page_add_to_list s p k = Inr s'"
  shows "free_area s' = (free_area s)(k := free_area s k @ [p])"
    and "vmemmap s' = vmemmap s" and "range_start s' = range_start s"
    and "range_end s' = range_end s" and "max_order s' = max_order s"
    and "free_pages s' = free_pages s" and "area_addr s' = area_addr s"
    and "k \<le> MAX_ORDER"
  using assms by (auto simp: page_add_to_list_def split: if_splits)

text \<open>The split loop from a head whose order is at most \<open>MAX_ORDER\<close>.\<close>

lemma extract_loop_result:
  "unat (order (vmemmap s p)) \<le> MAX_ORDER \<Longrightarrow> ord \<le> order (vmemmap s p) \<Longrightarrow>
   \<exists>s1. extract_loop s p ord = Inr s1
      \<and> free_pages s1 = free_pages s \<and> range_start s1 = range_start s \<and> range_end s1 = range_end s
      \<and> max_order s1 = max_order s
      \<and> (\<forall>q. refcount (vmemmap s1 q) = refcount (vmemmap s q))
      \<and> ord \<le> order (vmemmap s1 p) \<and> order (vmemmap s1 p) \<le> order (vmemmap s p)
      \<and> ((\<forall>j. unat ord \<le> j \<and> j < unat (order (vmemmap s p)) \<longrightarrow>
              uu_find_buddy_nocheck s p (of_nat j) \<noteq> None) \<longrightarrow> order (vmemmap s1 p) = ord)"
proof (induction s p ord rule: extract_loop.induct)
  case (1 s p ord)
  let ?o = "order (vmemmap s p)"
  show ?case
  proof (cases "ord < ?o")
    case False
    with "1.prems" have "?o = ord" by simp
    with False show ?thesis
      by (subst extract_step) simp
  next
    case True
    then have lt: "unat ord < unat ?o"
      by (simp add: word_less_nat_alt)
    then have nz: "?o \<noteq> 0" by auto
    have u: "unat (?o - 1) = unat ?o - 1"
      using nz by (rule unat_minus_one)
    have w: "(of_nat (unat ?o - 1) :: 8 word) = ?o - 1"
      using of_nat_unat [of "?o - 1", where ?'a = "8 word"] u by simp
    have le1: "?o - 1 \<le> ?o" and ge1: "ord \<le> ?o - 1"
      using u lt by (simp_all add: word_le_nat_alt)
    show ?thesis
    proof (cases "uu_find_buddy_nocheck s p (?o - 1)")
      case None
      have "\<not> (\<forall>j. unat ord \<le> j \<and> j < unat ?o \<longrightarrow> uu_find_buddy_nocheck s p (of_nat j) \<noteq> None)"
        using None w lt by (auto intro!: exI [of _ "unat ?o - 1"])
      then have imp: "(\<forall>j. unat ord \<le> j \<and> j < unat ?o \<longrightarrow> uu_find_buddy_nocheck s p (of_nat j) \<noteq> None)
          \<longrightarrow> order (vmemmap s p) = ord"
        by blast
      have r: "extract_loop s p ord = Inr s"
        using True None by (subst extract_step) simp
      show ?thesis
        unfolding r using imp "1.prems"(2) by blast
    next
      case (Some b)
      have bp: "b \<noteq> p" using Some by (rule nocheck_neq)
      let ?s2 = "set_order (set_order s p (?o - 1)) b (?o - 1)"
      have k: "unat (?o - 1) \<le> MAX_ORDER"
        using u "1.prems"(1) by simp
      then obtain s3 where add: "page_add_to_list ?s2 b (unat (?o - 1)) = Inr s3"
        by (simp add: page_add_to_list_def)
      note pr = page_add_to_list_proj [OF add]
      have o3: "order (vmemmap s3 p) = ?o - 1"
        using pr(2) bp by simp
      have a: "page_add_to_list
          (set_order (set_order s p (?o - 1)) b (order (vmemmap (set_order s p (?o - 1)) p)))
          b (unat (order (vmemmap (set_order (set_order s p (?o - 1)) b
                (order (vmemmap (set_order s p (?o - 1)) p))) b))) = Inr s3"
        using add by simp
      have p1: "unat (order (vmemmap s3 p)) \<le> MAX_ORDER"
        using o3 k by simp
      have p2: "ord \<le> order (vmemmap s3 p)"
        using o3 ge1 by simp
      from "1.IH" [OF True Some refl refl a p1 p2] obtain s1 where
        r: "extract_loop s3 p ord = Inr s1"
        and f: "free_pages s1 = free_pages s3" "range_start s1 = range_start s3"
          "range_end s1 = range_end s3" "max_order s1 = max_order s3"
        and rc: "\<forall>q. refcount (vmemmap s1 q) = refcount (vmemmap s3 q)"
        and b1: "ord \<le> order (vmemmap s1 p)" "order (vmemmap s1 p) \<le> order (vmemmap s3 p)"
        and ex: "(\<forall>j. unat ord \<le> j \<and> j < unat (order (vmemmap s3 p)) \<longrightarrow>
              uu_find_buddy_nocheck s3 p (of_nat j) \<noteq> None) \<longrightarrow> order (vmemmap s1 p) = ord"
        by blast
      have same: "uu_find_buddy_nocheck s3 p x = uu_find_buddy_nocheck s p x" for x
        using pr by (intro nocheck_range_only) simp_all
      have "order (vmemmap s1 p) = ord"
        if "\<forall>j. unat ord \<le> j \<and> j < unat ?o \<longrightarrow> uu_find_buddy_nocheck s p (of_nat j) \<noteq> None"
      proof -
        have "\<forall>j. unat ord \<le> j \<and> j < unat (order (vmemmap s3 p)) \<longrightarrow>
            uu_find_buddy_nocheck s3 p (of_nat j) \<noteq> None"
          using that o3 u same by auto
        with ex show ?thesis by blast
      qed
      moreover have "extract_loop s p ord = Inr s1"
        using True Some add r by (subst extract_step) simp
      moreover have "order (vmemmap s1 p) \<le> ?o"
        using b1(2) o3 le1 by simp
      moreover have "\<forall>q. refcount (vmemmap s1 q) = refcount (vmemmap s q)"
        using rc pr(2) by simp
      ultimately show ?thesis
        using f b1(1) pr by simp
    qed
  qed
qed

lemma scan_first:
  "i \<le> unat (max_order s) \<Longrightarrow> unat (max_order s) \<le> MAX_ORDER \<Longrightarrow> free_area s i \<noteq> [] \<Longrightarrow>
   j \<le> i \<Longrightarrow> \<forall>k. j \<le> k \<and> k < i \<longrightarrow> free_area s k = [] \<Longrightarrow> scan_free_area s j = Inr i"
proof (induction s j rule: scan_free_area.induct)
  case (1 s j)
  show ?case
  proof (cases "j = i")
    case True
    with "1.prems" show ?thesis
      by (subst scan_free_area.simps) (simp add: list_empty_def)
  next
    case False
    with "1.prems" have lt: "j < i" by simp
    with "1.prems" have c: "j \<le> unat (max_order s)" "\<not> MAX_ORDER < j" "list_empty s j"
      by (auto simp: list_empty_def)
    have "scan_free_area s (j + 1) = Inr i"
      using "1.prems" lt by (intro "1.IH" [OF c]) auto
    with c show ?thesis
      by (subst scan_free_area.simps) simp
  qed
qed


text \<open>
  Claim C3, as amended. In a pool whose \<open>max_order\<close> is within the list heads,
  \<^verbatim>\<open>hyp_alloc_pages\<close> returns null and changes nothing when every list from \<open>want\<close> to
  \<open>max_order\<close> is empty. Otherwise, with \<open>i\<close> the lowest order from \<open>want\<close> on whose
  list is not empty and \<open>p\<close> the first entry of that list (whose order field is \<open>i\<close>),
  it extracts \<open>p\<close>, sets the reference count of \<open>p\<close> to 1, decrements \<open>free_pages\<close> by
  \<open>1 << order\<close> for the order \<open>p\<close> has after the extraction, and returns the address of
  the body of \<open>p\<close>. That order is between \<open>want\<close> and \<open>i\<close>; it is \<open>want\<close>, and the
  decrement \<open>1 << want\<close>, when every buddy lookup of the split stays inside the range.
\<close>

theorem alloc_lowest_order:
  assumes "unat (max_order s) \<le> MAX_ORDER"
  shows "((\<forall>k. unat want \<le> k \<and> k \<le> unat (max_order s) \<longrightarrow> free_area s k = []) \<longrightarrow>
            hyp_alloc_pages s want = Inr (None, s))
      \<and> (\<forall>i p. unat want \<le> i \<and> i \<le> unat (max_order s)
              \<and> (\<forall>k. unat want \<le> k \<and> k < i \<longrightarrow> free_area s k = [])
              \<and> free_area s i \<noteq> [] \<and> p = hd (free_area s i) \<and> order (vmemmap s p) = of_nat i \<longrightarrow>
            (\<exists>s1 s'. uu_hyp_extract_page s p want = Inr (p, s1)
               \<and> hyp_alloc_pages s want = Inr (Some (hyp_page_to_virt p), s')
               \<and> s' = (hyp_set_page_refcounted s1 p)
                        \<lparr>free_pages := free_pages s - 2 ^ unat (order (vmemmap s1 p))\<rparr>
               \<and> refcount (vmemmap s' p) = 1
               \<and> want \<le> order (vmemmap s' p) \<and> order (vmemmap s' p) \<le> of_nat i
               \<and> ((\<forall>j. unat want \<le> j \<and> j < i \<longrightarrow> uu_find_buddy_nocheck s p (of_nat j) \<noteq> None) \<longrightarrow>
                    order (vmemmap s' p) = want \<and> free_pages s' = free_pages s - 2 ^ unat want)))"
proof (intro conjI allI impI)
  assume "\<forall>k. unat want \<le> k \<and> k \<le> unat (max_order s) \<longrightarrow> free_area s k = []"
  with assms show "hyp_alloc_pages s want = Inr (None, s)"
    by (rule alloc_none)
next
  fix i :: nat and p :: pfn
  assume h: "unat want \<le> i \<and> i \<le> unat (max_order s)
      \<and> (\<forall>k. unat want \<le> k \<and> k < i \<longrightarrow> free_area s k = [])
      \<and> free_area s i \<noteq> [] \<and> p = hd (free_area s i) \<and> order (vmemmap s p) = of_nat i"
  then have hp: "p = hd (free_area s i)" and ho: "order (vmemmap s p) = of_nat i"
    and hw: "unat want \<le> i" and hne: "free_area s i \<noteq> []"
    by blast+
  from h have i4: "i \<le> MAX_ORDER" using assms by simp
  then have ui: "unat (of_nat i :: 8 word) = i"
    by (simp add: unat_of_nat MAX_ORDER_def)
  have sc: "scan_free_area s (unat want) = Inr i"
    using h assms by (intro scan_first) auto
  let ?t = "page_remove_from_list s p"
  have o: "order (vmemmap ?t p) = of_nat i"
    using ho by simp
  have "unat (order (vmemmap ?t p)) \<le> MAX_ORDER" "want \<le> order (vmemmap ?t p)"
    using o ui i4 hw by (simp_all add: word_le_nat_alt)
  from extract_loop_result [OF this] obtain s1 where
    r: "extract_loop ?t p want = Inr s1"
    and f: "free_pages s1 = free_pages ?t" "range_start s1 = range_start ?t"
      "range_end s1 = range_end ?t"
    and b: "want \<le> order (vmemmap s1 p)" "order (vmemmap s1 p) \<le> order (vmemmap ?t p)"
    and ex: "(\<forall>j. unat want \<le> j \<and> j < unat (order (vmemmap ?t p)) \<longrightarrow>
              uu_find_buddy_nocheck ?t p (of_nat j) \<noteq> None) \<longrightarrow> order (vmemmap s1 p) = want"
    by blast
  have small: "unat (order (vmemmap s1 p)) < 31"
    using b(2) o ui i4 by (simp add: word_le_nat_alt MAX_ORDER_def)
  let ?s' = "(hyp_set_page_refcounted s1 p)\<lparr>free_pages := free_pages s - 2 ^ unat (order (vmemmap s1 p))\<rparr>"
  have al: "hyp_alloc_pages s want = Inr (Some (hyp_page_to_virt p), ?s')"
    using sc h hp [symmetric] r small f by (simp add: alloc_eq addr_defs)
  have same: "uu_find_buddy_nocheck ?t p x = uu_find_buddy_nocheck s p x" for x
    by (intro nocheck_range_only) simp_all
  have fin: "order (vmemmap ?s' p) = want \<and> free_pages ?s' = free_pages s - 2 ^ unat want"
    if "\<forall>j. unat want \<le> j \<and> j < i \<longrightarrow> uu_find_buddy_nocheck s p (of_nat j) \<noteq> None"
  proof -
    have "order (vmemmap s1 p) = want"
      using that ex o ui same by simp
    then show ?thesis by simp
  qed
  show "\<exists>s1 s'. uu_hyp_extract_page s p want = Inr (p, s1)
      \<and> hyp_alloc_pages s want = Inr (Some (hyp_page_to_virt p), s')
      \<and> s' = (hyp_set_page_refcounted s1 p)
               \<lparr>free_pages := free_pages s - 2 ^ unat (order (vmemmap s1 p))\<rparr>
      \<and> refcount (vmemmap s' p) = 1
      \<and> want \<le> order (vmemmap s' p) \<and> order (vmemmap s' p) \<le> of_nat i
      \<and> ((\<forall>j. unat want \<le> j \<and> j < i \<longrightarrow> uu_find_buddy_nocheck s p (of_nat j) \<noteq> None) \<longrightarrow>
           order (vmemmap s' p) = want \<and> free_pages s' = free_pages s - 2 ^ unat want)"
  proof (rule exI [of _ s1], rule exI [of _ ?s'])
    have 1: "uu_hyp_extract_page s p want = Inr (p, s1)"
      using r by (simp add: extract_eq)
    have 2: "refcount (vmemmap ?s' p) = 1" by simp
    have 3: "want \<le> order (vmemmap ?s' p)" using b(1) by simp
    have 4: "order (vmemmap ?s' p) \<le> of_nat i" using b(2) o by simp
    have 5: "(\<forall>j. unat want \<le> j \<and> j < i \<longrightarrow> uu_find_buddy_nocheck s p (of_nat j) \<noteq> None) \<longrightarrow>
           order (vmemmap ?s' p) = want \<and> free_pages ?s' = free_pages s - 2 ^ unat want"
      using fin by blast
    from 1 al 2 3 4 5
    show "uu_hyp_extract_page s p want = Inr (p, s1)
      \<and> hyp_alloc_pages s want = Inr (Some (hyp_page_to_virt p), ?s')
      \<and> ?s' = (hyp_set_page_refcounted s1 p)
               \<lparr>free_pages := free_pages s - 2 ^ unat (order (vmemmap s1 p))\<rparr>
      \<and> refcount (vmemmap ?s' p) = 1
      \<and> want \<le> order (vmemmap ?s' p) \<and> order (vmemmap ?s' p) \<le> of_nat i
      \<and> ((\<forall>j. unat want \<le> j \<and> j < i \<longrightarrow> uu_find_buddy_nocheck s p (of_nat j) \<noteq> None) \<longrightarrow>
           order (vmemmap ?s' p) = want \<and> free_pages ?s' = free_pages s - 2 ^ unat want)"
      by blast
  qed
qed

theorem alloc_lowest_order_witness:
  "(\<exists>s1 s'. uu_hyp_extract_page pair_free 0 0 = Inr (0, s1)
      \<and> hyp_alloc_pages pair_free 0 = Inr (Some 0, s')
      \<and> refcount (vmemmap s' 0) = 1 \<and> order (vmemmap s' 0) = 0 \<and> free_pages s' = 1)
   \<and> hyp_alloc_pages two_frames 0 = Inr (None, two_frames)"
proof -
  have m: "unat (max_order pair_free) \<le> MAX_ORDER"
    by (simp add: MAX_ORDER_def)
  have h: "unat (0 :: 8 word) \<le> 1 \<and> 1 \<le> unat (max_order pair_free)
      \<and> (\<forall>k. unat (0 :: 8 word) \<le> k \<and> k < 1 \<longrightarrow> free_area pair_free k = [])
      \<and> free_area pair_free 1 \<noteq> [] \<and> (0::nat) = hd (free_area pair_free 1)
      \<and> order (vmemmap pair_free 0) = of_nat 1"
    by simp
  have n: "\<forall>j. unat (0 :: 8 word) \<le> j \<and> j < 1 \<longrightarrow> uu_find_buddy_nocheck pair_free 0 (of_nat j) \<noteq> None"
    by (simp add: nocheck_eq)
  from alloc_lowest_order [OF m, of 0, THEN conjunct2, rule_format, OF h] n
  have a: "\<exists>s1 s'. uu_hyp_extract_page pair_free 0 0 = Inr (0, s1)
      \<and> hyp_alloc_pages pair_free 0 = Inr (Some 0, s')
      \<and> refcount (vmemmap s' 0) = 1 \<and> order (vmemmap s' 0) = 0 \<and> free_pages s' = 1"
    by (auto simp: addr_defs)
  have m2: "unat (max_order two_frames) \<le> MAX_ORDER"
    by (simp add: MAX_ORDER_def)
  from alloc_lowest_order [OF m2, of 0, THEN conjunct1]
  have "hyp_alloc_pages two_frames 0 = Inr (None, two_frames)"
    by simp
  with a show ?thesis by blast
qed

text \<open>
  Claim C3 as stated (the counter always decreases by \<open>1 << want_order\<close>) fails for an
  external group: after \<^verbatim>\<open>hyp_pool_init_empty\<close> and the put of the external order-1
  group at frame 100, an allocation of order 0 returns the group at order 1 (its buddy
  lookup leaves the range) and the counter decreases by 2.
\<close>

theorem alloc_oversize_counterexample:
  "(case hyp_pool_init_empty external_pair 8 of
      Inr s0 \<Rightarrow>
        (case hyp_put_page s0 409600 of
           Inr s1 \<Rightarrow>
             free_area s1 1 = [100] \<and> free_pages s1 = 2
             \<and> (case hyp_alloc_pages s1 0 of
                   Inr (Some a, s2) \<Rightarrow>
                     a = 409600 \<and> order (vmemmap s2 100) = 1
                     \<and> free_pages s2 = free_pages s1 - 2
                     \<and> free_pages s2 \<noteq> free_pages s1 - 1
                 | _ \<Rightarrow> False)
         | Inl e \<Rightarrow> False)
    | Inl e \<Rightarrow> False)"
  by (simp add: init_simps get_order_eight_pages eval_simps)

section \<open>The well-formed pool is an invariant\<close>

subsection \<open>Buddy arithmetic on frame numbers\<close>

lemma xor_pow_aligned:
  assumes "2 ^ k dvd (p::nat)"
  shows "p XOR 2 ^ k = (if 2 ^ Suc k dvd p then p + 2 ^ k else p - 2 ^ k)"
proof -
  from assms obtain m where m: "p = 2 ^ k * m" by (auto simp: dvd_def)
  have "p XOR 2 ^ k = push_bit k m XOR push_bit k 1"
    by (simp add: m push_bit_eq_mult mult.commute)
  also have "\<dots> = push_bit k (m XOR 1)"
    by (simp only: push_bit_xor)
  also have "m XOR 1 = (if even m then m + 1 else m - 1)"
    unfolding xor_one_eq [of m] by simp
  finally have x: "p XOR 2 ^ k = 2 ^ k * (if even m then m + 1 else m - 1)"
    by (simp add: push_bit_eq_mult mult.commute)
  have e: "2 ^ Suc k dvd p \<longleftrightarrow> even m"
    by (simp add: m)
  show ?thesis
  proof (cases "even m")
    case True
    with x e show ?thesis by (simp add: m algebra_simps)
  next
    case False
    then have "m \<ge> 1" by (cases m) auto
    with False x e show ?thesis by (simp add: m algebra_simps)
  qed
qed

lemma xor_pow_involution: "(p XOR 2 ^ k) XOR 2 ^ k = (p::nat)"
  by (simp add: xor.assoc)

lemma aligned_buddy:
  assumes "2 ^ k dvd (p::nat)"
  shows "2 ^ k dvd (p XOR 2 ^ k)" and "2 ^ Suc k dvd min p (p XOR 2 ^ k)"
    and "max p (p XOR 2 ^ k) = min p (p XOR 2 ^ k) + 2 ^ k"
proof -
  from assms obtain m where m: "p = 2 ^ k * m" by (auto simp: dvd_def)
  show "2 ^ k dvd (p XOR 2 ^ k)"
  proof (cases "even m")
    case True
    then have "2 ^ Suc k dvd p" by (simp add: m)
    with xor_pow_aligned [OF assms] have "p XOR 2 ^ k = 2 ^ k * (m + 1)"
      by (simp add: m)
    then show ?thesis by simp
  next
    case False
    then have "\<not> 2 ^ Suc k dvd p" by (simp add: m)
    with xor_pow_aligned [OF assms] have "p XOR 2 ^ k = 2 ^ k * m - 2 ^ k"
      by (simp add: m)
    also have "\<dots> = 2 ^ k * (m - 1)"
      by (simp add: algebra_simps)
    finally show ?thesis by simp
  qed
  show "2 ^ Suc k dvd min p (p XOR 2 ^ k)"
  proof (cases "even m")
    case True
    then have d: "2 ^ Suc k dvd p" by (simp add: m)
    with xor_pow_aligned [OF assms] have "p XOR 2 ^ k = p + 2 ^ k" by simp
    then have "min p (p XOR 2 ^ k) = p" by simp
    with d show ?thesis by simp
  next
    case False
    then have d: "\<not> 2 ^ Suc k dvd p" by (simp add: m)
    from False obtain n where n: "m = 2 * n + 1" by (auto elim: oddE)
    from d xor_pow_aligned [OF assms] have x: "p XOR 2 ^ k = p - 2 ^ k" by simp
    have "p - 2 ^ k = 2 ^ Suc k * n"
      by (simp add: m n algebra_simps)
    with x have "min p (p XOR 2 ^ k) = 2 ^ Suc k * n" by simp
    then show ?thesis by simp
  qed
  show "max p (p XOR 2 ^ k) = min p (p XOR 2 ^ k) + 2 ^ k"
  proof (cases "2 ^ Suc k dvd p")
    case True
    with xor_pow_aligned [OF assms] show ?thesis by simp
  next
    case False
    with xor_pow_aligned [OF assms] have x: "p XOR 2 ^ k = p - 2 ^ k" by simp
    have "p \<noteq> 0"
    proof
      assume "p = 0"
      then have "2 ^ Suc k dvd p" by simp
      with False show False by simp
    qed
    with assms have "2 ^ k \<le> p" by (auto dest: dvd_imp_le)
    with x show ?thesis by simp
  qed
qed

text \<open>Aligned blocks are nested or disjoint.\<close>

lemma aligned_blocks_nested:
  assumes "2 ^ j dvd (p::nat)" "2 ^ k dvd (q::nat)" "j \<le> k"
    and "p \<le> t" "t < p + 2 ^ j" "q \<le> t" "t < q + 2 ^ k"
  shows "q \<le> p \<and> p + 2 ^ j \<le> q + 2 ^ k"
proof -
  from assms(3) have jk: "(2::nat) ^ j dvd 2 ^ k" by (simp add: le_imp_power_dvd)
  with assms(2) have dq: "2 ^ j dvd q" by (rule dvd_trans [rotated])
  from assms(1) obtain a where a: "p = 2 ^ j * a" by (auto simp: dvd_def)
  from dq obtain b where b: "q = 2 ^ j * b" by (auto simp: dvd_def)
  from jk obtain c where c: "(2::nat) ^ k = 2 ^ j * c" by (auto simp: dvd_def)
  define e where "e = (2::nat) ^ j"
  have e0: "0 < e" by (simp add: e_def)
  have t1: "e * a \<le> t" "t < e * (a + 1)" "e * b \<le> t" "t < e * (b + c)"
    using assms(4-7) a b c by (simp_all add: e_def algebra_simps)
  have "b < a + 1"
  proof (rule ccontr)
    assume "\<not> b < a + 1"
    then have "a + 1 \<le> b" by simp
    then have "e * (a + 1) \<le> e * b" by (rule mult_le_mono2)
    with t1 show False by simp
  qed
  moreover have "a < b + c"
  proof (rule ccontr)
    assume "\<not> a < b + c"
    then have "b + c \<le> a" by simp
    then have "e * (b + c) \<le> e * a" by (rule mult_le_mono2)
    with t1 show False by simp
  qed
  ultimately have "b \<le> a" "a + 1 \<le> b + c" by simp_all
  then have "e * b \<le> e * a" "e * (a + 1) \<le> e * (b + c)"
    by (simp_all only: mult_le_mono2)
  then show ?thesis
    by (simp add: a b c e_def algebra_simps)
qed


subsection \<open>The range and the buddy lookup on frame numbers\<close>

lemma in_range_proj [simp]:
  "in_range (set_order s p v) = in_range s"
  "in_range (set_refcount s p w) = in_range s"
  "in_range (page_remove_from_list s p) = in_range s"
  "in_range (INIT_LIST_HEAD_node s n) = in_range s"
  "in_range (list_add_tail s p k) = in_range s"
  "in_range (hyp_set_page_refcounted s p) = in_range s"
  "in_range (s\<lparr>mem := m\<rparr>) = in_range s"
  "in_range (s\<lparr>free_pages := f\<rparr>) = in_range s"
  by (simp_all add: in_range_def fun_eq_iff)

lemma nocheck_proj [simp]:
  "uu_find_buddy_nocheck (set_order s p v) = uu_find_buddy_nocheck s"
  "uu_find_buddy_nocheck (set_refcount s p w) = uu_find_buddy_nocheck s"
  "uu_find_buddy_nocheck (page_remove_from_list s p) = uu_find_buddy_nocheck s"
  "uu_find_buddy_nocheck (INIT_LIST_HEAD_node s n) = uu_find_buddy_nocheck s"
  "uu_find_buddy_nocheck (list_add_tail s p k) = uu_find_buddy_nocheck s"
  "uu_find_buddy_nocheck (hyp_set_page_refcounted s p) = uu_find_buddy_nocheck s"
  "uu_find_buddy_nocheck (s\<lparr>mem := m\<rparr>) = uu_find_buddy_nocheck s"
  "uu_find_buddy_nocheck (s\<lparr>free_pages := f\<rparr>) = uu_find_buddy_nocheck s"
  by (simp_all add: nocheck_eq fun_eq_iff)

lemma nocheck_frames:
  "uu_find_buddy_nocheck s p ord =
     (if in_range s (p XOR 2 ^ unat ord) then Some (p XOR 2 ^ unat ord) else None)"
  by (auto simp: nocheck_eq in_range_def addr_defs)

lemma nocheck_Some_iff:
  "uu_find_buddy_nocheck s p ord = Some b \<longleftrightarrow> b = p XOR 2 ^ unat ord \<and> in_range s b"
  by (auto simp: nocheck_frames)

lemma nocheck_None_iff:
  "uu_find_buddy_nocheck s p ord = None \<longleftrightarrow> \<not> in_range s (p XOR 2 ^ unat ord)"
  by (simp add: nocheck_frames)

lemma avail_Some_iff:
  "uu_find_buddy_avail s p ord = Some b \<longleftrightarrow>
     b = p XOR 2 ^ unat ord \<and> in_range s b \<and> order (vmemmap s b) = ord \<and> refcount (vmemmap s b) = 0"
  by (auto simp: avail_eq nocheck_frames split: option.splits if_splits)

lemma avail_None_iff:
  "uu_find_buddy_avail s p ord = None \<longleftrightarrow>
     \<not> (in_range s (p XOR 2 ^ unat ord) \<and> order (vmemmap s (p XOR 2 ^ unat ord)) = ord
        \<and> refcount (vmemmap s (p XOR 2 ^ unat ord)) = 0)"
  by (auto simp: avail_eq nocheck_frames split: option.splits)

lemma unat_small_of_nat: "k \<le> MAX_ORDER \<Longrightarrow> unat (of_nat k :: 8 word) = k"
  by (simp add: unat_of_nat MAX_ORDER_def)

lemma no_order_unat: "unat HYP_NO_ORDER = 255"
  by (simp add: HYP_NO_ORDER_def)

lemma small_order_is_head: "unat (w :: 8 word) \<le> MAX_ORDER \<Longrightarrow> w \<noteq> HYP_NO_ORDER"
  by (auto simp: HYP_NO_ORDER_def MAX_ORDER_def)


subsection \<open>Coalescing keeps the pool well formed\<close>

lemma distinct_remove1_notin: "distinct xs \<Longrightarrow> x \<notin> set (remove1 x xs)"
  by simp

lemma inv_blocksD:
  assumes "inv_blocks s" "in_range s p" "order (vmemmap s p) \<noteq> HYP_NO_ORDER"
  shows "unat (order (vmemmap s p)) \<le> unat (max_order s)"
    and "2 ^ unat (order (vmemmap s p)) dvd p"
    and "\<And>t. p < t \<Longrightarrow> t < p + 2 ^ unat (order (vmemmap s p)) \<Longrightarrow>
           in_range s t \<and> order (vmemmap s t) = HYP_NO_ORDER \<and> refcount (vmemmap s t) = 0"
  using assms unfolding inv_blocks_def by blast+

lemma inv_listsD:
  assumes "inv_lists s"
  shows "unat (max_order s) \<le> MAX_ORDER"
    and "\<And>k. distinct (free_area s k)"
    and "\<And>k p. p \<in> set (free_area s k) \<Longrightarrow>
           k \<le> unat (max_order s) \<and> unat (order (vmemmap s p)) = k \<and> refcount (vmemmap s p) = 0"
  using assms unfolding inv_lists_def by blast+

lemma pool_invD:
  assumes "pool_inv s"
  shows "inv_lists s" "inv_blocks s" "inv_buddies s" "inv_external s"
  using assms unfolding pool_inv_def by blast+

lemma detachedD:
  assumes "detached s p k"
  shows "in_range s p" "order (vmemmap s p) = HYP_NO_ORDER" "refcount (vmemmap s p) = 0"
    and "k \<le> unat (max_order s)" "2 ^ k dvd p"
    and "\<And>t. p < t \<Longrightarrow> t < p + 2 ^ k \<Longrightarrow>
           in_range s t \<and> order (vmemmap s t) = HYP_NO_ORDER \<and> refcount (vmemmap s t) = 0"
    and "\<And>j. p \<notin> set (free_area s j)"
    and "\<And>q. in_range s q \<Longrightarrow> order (vmemmap s q) \<noteq> HYP_NO_ORDER \<Longrightarrow>
           \<not> (q < p \<and> p < q + 2 ^ unat (order (vmemmap s q)))"
  using assms unfolding detached_def by blast+

lemma coalesce_step_inv:
  assumes inv: "pool_inv s" and det: "detached s p (unat ord)"
    and g: "unat ord + 1 \<le> unat (max_order s)"
    and av: "uu_find_buddy_avail s p ord = Some b"
  shows "pool_inv (set_order (page_remove_from_list s b) b HYP_NO_ORDER)
    \<and> detached (set_order (page_remove_from_list s b) b HYP_NO_ORDER) (min p b) (unat (ord + 1))"
proof -
  let ?k = "unat ord"
  let ?s' = "set_order (page_remove_from_list s b) b HYP_NO_ORDER"
  note il = pool_invD(1) [OF inv] and ib = pool_invD(2) [OF inv]
    and iy = pool_invD(3) [OF inv] and ie = pool_invD(4) [OF inv]
  from av have b: "b = p XOR 2 ^ ?k" and br: "in_range s b" and bo: "order (vmemmap s b) = ord"
    and bc: "refcount (vmemmap s b) = 0"
    unfolding avail_Some_iff by blast+
  note mo = inv_listsD(1) [OF il]
  have oh: "ord \<noteq> HYP_NO_ORDER"
    using g mo by (intro small_order_is_head) simp
  have u1: "unat (ord + 1) = ?k + 1"
    using g by (rule unat_succ_guard)
  have bp: "b \<noteq> p" using b by (simp add: xor_bit_neq)
  note pr = detachedD(1) [OF det] and po = detachedD(2) [OF det] and pc = detachedD(3) [OF det]
    and pa = detachedD(5) [OF det] and pt = detachedD(6) [OF det] and pl = detachedD(7) [OF det]
    and pn = detachedD(8) [OF det]
  have bh: "order (vmemmap s b) \<noteq> HYP_NO_ORDER" using bo oh by simp
  have ba: "2 ^ ?k dvd b"
    using inv_blocksD(2) [OF ib br bh] bo by simp
  have bt: "in_range s t \<and> order (vmemmap s t) = HYP_NO_ORDER \<and> refcount (vmemmap s t) = 0"
    if "b < t" "t < b + 2 ^ ?k" for t
    using inv_blocksD(3) [OF ib br bh, of t] that bo by simp
  note dist = inv_listsD(2) [OF il]
  have mem': "q \<in> set (remove1 b (free_area s j)) \<longleftrightarrow> q \<in> set (free_area s j) \<and> q \<noteq> b" for j q
    using dist [of j] by auto
  have 1: "inv_lists ?s'"
    unfolding inv_lists_def
  proof (intro conjI allI impI)
    show "unat (max_order ?s') \<le> MAX_ORDER" using mo by simp
    show "distinct (free_area ?s' k)" for k using dist [of k] by simp
    fix k q assume "q \<in> set (free_area ?s' k)"
    then have "q \<in> set (free_area s k)" "q \<noteq> b" by (simp_all add: mem')
    with inv_listsD(3) [OF il, of q k]
    show "k \<le> unat (max_order ?s')" "unat (order (vmemmap ?s' q)) = k" "refcount (vmemmap ?s' q) = 0"
      by simp_all
  qed
  have 2: "inv_blocks ?s'"
    unfolding inv_blocks_def
  proof (intro allI impI)
    fix q assume "in_range ?s' q \<and> order (vmemmap ?s' q) \<noteq> HYP_NO_ORDER"
    then have qb: "q \<noteq> b" and qr: "in_range s q" and qh: "order (vmemmap s q) \<noteq> HYP_NO_ORDER"
      by (auto split: if_splits)
    have o': "order (vmemmap ?s' q) = order (vmemmap s q)" using qb by simp
    show "unat (order (vmemmap ?s' q)) \<le> unat (max_order ?s')
        \<and> 2 ^ unat (order (vmemmap ?s' q)) dvd q
        \<and> (\<forall>t. q < t \<and> t < q + 2 ^ unat (order (vmemmap ?s' q)) \<longrightarrow>
              in_range ?s' t \<and> order (vmemmap ?s' t) = HYP_NO_ORDER \<and> refcount (vmemmap ?s' t) = 0)"
      unfolding o' using inv_blocksD [OF ib qr qh] by simp
  qed
  have 3: "inv_buddies ?s'"
    using iy unfolding inv_buddies_def by (simp add: mem') blast
  have 4: "inv_external ?s'"
    using ie unfolding inv_external_def by (simp add: mem') blast
  have mn: "min p b = p \<or> min p b = b" by (simp add: min_def)
  have hi: "max p b = min p b + 2 ^ ?k" and al: "2 ^ Suc ?k dvd min p b"
    using aligned_buddy [OF pa] b by simp_all
  have 5: "detached ?s' (min p b) (unat (ord + 1))"
    unfolding detached_def u1
  proof (intro conjI allI impI)
    show "in_range ?s' (min p b)" using mn pr br by auto
    show "order (vmemmap ?s' (min p b)) = HYP_NO_ORDER" using mn po by auto
    show "refcount (vmemmap ?s' (min p b)) = 0" using mn pc bc by auto
    show "?k + 1 \<le> unat (max_order ?s')" using g by simp
    show "2 ^ (?k + 1) dvd min p b" using al by simp
    show "min p b \<notin> set (free_area ?s' j)" for j
      using mn pl [of j] by (auto simp: mem')
  next
    fix t assume t: "min p b < t \<and> t < min p b + 2 ^ (?k + 1)"
    have "in_range s t \<and> (t = b \<or> order (vmemmap s t) = HYP_NO_ORDER) \<and> refcount (vmemmap s t) = 0"
    proof (cases "t < max p b")
      case True
      with t hi have "min p b < t \<and> t < min p b + 2 ^ ?k" by simp
      with mn pt [of t] bt [of t] show ?thesis by auto
    next
      case False
      show ?thesis
      proof (cases "t = max p b")
        case True
        then have "t = p \<or> t = b" by (auto simp: max_def)
        with pr br po pc bc show ?thesis by auto
      next
        case False
        with \<open>\<not> t < max p b\<close> t hi have "max p b < t \<and> t < max p b + 2 ^ ?k" by simp
        moreover have "max p b = p \<or> max p b = b" by (simp add: max_def)
        ultimately show ?thesis using pt [of t] bt [of t] by auto
      qed
    qed
    then show "in_range ?s' t" "order (vmemmap ?s' t) = HYP_NO_ORDER" "refcount (vmemmap ?s' t) = 0"
      by auto
  next
    fix q assume q: "in_range ?s' q \<and> order (vmemmap ?s' q) \<noteq> HYP_NO_ORDER"
    then have qb: "q \<noteq> b" and qh: "in_range s q" "order (vmemmap s q) \<noteq> HYP_NO_ORDER"
      by (auto split: if_splits)
    have o': "order (vmemmap ?s' q) = order (vmemmap s q)" using qb by simp
    have "\<not> (q < b \<and> b < q + 2 ^ unat (order (vmemmap s q)))"
    proof
      assume "q < b \<and> b < q + 2 ^ unat (order (vmemmap s q))"
      with inv_blocksD(3) [OF ib qh, of b] have "order (vmemmap s b) = HYP_NO_ORDER"
        by simp
      with bo oh show False by simp
    qed
    with pn [OF qh] mn show "\<not> (q < min p b \<and> min p b < q + 2 ^ unat (order (vmemmap ?s' q)))"
      unfolding o' by auto
  qed
  from 1 2 3 4 5 show ?thesis by (simp add: pool_inv_def)
qed


lemma coalesce_inv:
  "pool_inv s \<Longrightarrow> detached s p (unat ord) \<Longrightarrow>
   (case coalesce s p ord of
      (s', p', ord') \<Rightarrow>
        pool_inv s' \<and> detached s' p' (unat ord')
        \<and> (unat ord' + 1 \<le> unat (max_order s') \<longrightarrow> uu_find_buddy_avail s' p' ord' = None))"
proof (induction s p ord rule: coalesce.induct)
  case (1 s p ord)
  show ?case
  proof (cases "unat ord + 1 \<le> unat (max_order s)")
    case False
    with "1.prems" show ?thesis
      by (subst coalesce.simps) simp
  next
    case True
    show ?thesis
    proof (cases "uu_find_buddy_avail s p ord")
      case None
      with True "1.prems" show ?thesis
        by (subst coalesce.simps) simp
    next
      case (Some b)
      from coalesce_step_inv [OF "1.prems" True Some]
      have "pool_inv (set_order (page_remove_from_list s b) b HYP_NO_ORDER)"
        "detached (set_order (page_remove_from_list s b) b HYP_NO_ORDER) (min p b) (unat (ord + 1))"
        by simp_all
      from "1.IH" [OF True Some this] True Some show ?thesis
        by (subst coalesce.simps) simp
    qed
  qed
qed

text \<open>The final insertion of the head that the loop leaves.\<close>

lemma attach_insert_inv:
  assumes inv: "pool_inv s" and det: "detached s p (unat ord)"
    and stop: "unat ord + 1 \<le> unat (max_order s) \<longrightarrow> uu_find_buddy_avail s p ord = None"
  shows "\<exists>s'. page_add_to_list (set_order s p ord) p (unat ord) = Inr s' \<and> pool_inv s'"
proof -
  let ?k = "unat ord"
  let ?s' = "list_add_tail (INIT_LIST_HEAD_node (set_order s p ord) (hyp_page_to_virt p)) p ?k"
  note il = pool_invD(1) [OF inv] and ib = pool_invD(2) [OF inv]
    and iy = pool_invD(3) [OF inv] and ie = pool_invD(4) [OF inv]
  note mo = inv_listsD(1) [OF il] and dist = inv_listsD(2) [OF il] and lm = inv_listsD(3) [OF il]
  note pr = detachedD(1) [OF det] and po = detachedD(2) [OF det] and pc = detachedD(3) [OF det]
    and pk = detachedD(4) [OF det]
    and pa = detachedD(5) [OF det] and pt = detachedD(6) [OF det] and pl = detachedD(7) [OF det]
    and pn = detachedD(8) [OF det]
  have k4: "?k \<le> MAX_ORDER" using pk mo by simp
  then have oh: "ord \<noteq> HYP_NO_ORDER" by (rule small_order_is_head)
  have add: "page_add_to_list (set_order s p ord) p ?k = Inr ?s'"
    using k4 by (simp add: page_add_to_list_def)
  have mem': "q \<in> set (free_area ?s' j) \<longleftrightarrow> q \<in> set (free_area s j) \<or> (q = p \<and> j = ?k)" for q j
    by auto
  have old: "q \<noteq> p" if "q \<in> set (free_area s j)" for q j
    using that pl [of j] by auto
  have 1: "inv_lists ?s'"
    unfolding inv_lists_def
  proof (intro conjI allI impI)
    show "unat (max_order ?s') \<le> MAX_ORDER" using mo by simp
    show "distinct (free_area ?s' j)" for j using dist [of j] pl [of j] by auto
    fix j q assume "q \<in> set (free_area ?s' j)"
    then consider "q \<in> set (free_area s j)" | "q = p" "j = ?k" by (auto simp: mem' split: if_splits)
    then have "j \<le> unat (max_order ?s') \<and> unat (order (vmemmap ?s' q)) = j
        \<and> refcount (vmemmap ?s' q) = 0"
    proof cases
      case 1
      with lm [of q j] old [of q j] show ?thesis by simp
    next
      case 2
      with pk pc show ?thesis by simp
    qed
    then show "j \<le> unat (max_order ?s')" "unat (order (vmemmap ?s' q)) = j"
      "refcount (vmemmap ?s' q) = 0"
      by blast+
  qed
  have 2: "inv_blocks ?s'"
    unfolding inv_blocks_def
  proof (intro allI impI)
    fix q assume q: "in_range ?s' q \<and> order (vmemmap ?s' q) \<noteq> HYP_NO_ORDER"
    show "unat (order (vmemmap ?s' q)) \<le> unat (max_order ?s')
        \<and> 2 ^ unat (order (vmemmap ?s' q)) dvd q
        \<and> (\<forall>t. q < t \<and> t < q + 2 ^ unat (order (vmemmap ?s' q)) \<longrightarrow>
              in_range ?s' t \<and> order (vmemmap ?s' t) = HYP_NO_ORDER \<and> refcount (vmemmap ?s' t) = 0)"
    proof (cases "q = p")
      case True
      then show ?thesis using pk pa pt by simp
    next
      case False
      with q have qr: "in_range s q" and qh: "order (vmemmap s q) \<noteq> HYP_NO_ORDER" by simp_all
      have "t \<noteq> p" if "q < t" "t < q + 2 ^ unat (order (vmemmap s q))" for t
        using pn [OF qr qh] that by auto
      with inv_blocksD [OF ib qr qh] False show ?thesis by simp
    qed
  qed
  have none: "\<not> (in_range s c \<and> order (vmemmap s c) = ord \<and> refcount (vmemmap s c) = 0)"
    if "?k < unat (max_order s)" "c = p XOR 2 ^ ?k" for c
    using stop that by (simp add: avail_None_iff)
  have 3: "inv_buddies ?s'"
    unfolding inv_buddies_def
  proof (intro allI impI)
    fix j q c
    assume a: "j < unat (max_order ?s') \<and> q \<in> set (free_area ?s' j) \<and> in_range ?s' q
        \<and> uu_find_buddy_nocheck ?s' q (of_nat j) = Some c"
    then have j: "j < unat (max_order s)" and qm: "q \<in> set (free_area ?s' j)" and qr: "in_range s q"
      and nc: "uu_find_buddy_nocheck s q (of_nat j) = Some c"
      by simp_all
    have uj: "unat (of_nat j :: 8 word) = j"
      using j mo by (intro unat_small_of_nat) simp
    from nc have c: "c = q XOR 2 ^ j" and cr: "in_range s c"
      unfolding nocheck_Some_iff uj by blast+
    show "c \<notin> set (free_area ?s' j)"
    proof
      assume cm: "c \<in> set (free_area ?s' j)"
      have on_list: False if "x \<in> set (free_area s ?k)" "x = p XOR 2 ^ ?k" "in_range s x" "j = ?k" for x
      proof -
        from lm [OF that(1)] have "unat (order (vmemmap s x)) = ?k" "refcount (vmemmap s x) = 0"
          by simp_all
        then have "order (vmemmap s x) = ord" by (simp add: word_unat_eq_iff)
        with none [of x] that j \<open>refcount (vmemmap s x) = 0\<close> show False by simp
      qed
      from qm consider "q \<in> set (free_area s j)" | "q = p" "j = ?k" by (auto split: if_splits)
      then show False
      proof cases
        case 2
        with c cm have "c \<in> set (free_area s ?k)"
          by (auto simp: xor_bit_neq split: if_splits)
        with on_list [of c] c cr 2 show False by simp
      next
        case 1
        from cm consider "c \<in> set (free_area s j)" | "c = p" "j = ?k" by (auto split: if_splits)
        then show False
        proof cases
          case 1
          with iy j \<open>q \<in> set (free_area s j)\<close> qr nc show False
            unfolding inv_buddies_def by blast
        next
          case 2
          with c have "q = p XOR 2 ^ ?k"
            using xor_pow_involution [of q ?k] by simp
          with on_list [of q] \<open>q \<in> set (free_area s j)\<close> qr 2 show False by simp
        qed
      qed
    qed
  qed
  have 4: "inv_external ?s'"
    unfolding inv_external_def
  proof (intro allI impI)
    fix j q i
    assume a: "q \<in> set (free_area ?s' j) \<and> \<not> in_range ?s' q \<and> i < j"
    with pr have "q \<in> set (free_area s j)" by (auto split: if_splits)
    moreover from a have "\<not> in_range s q" "i < j" by simp_all
    ultimately have "uu_find_buddy_nocheck s q (of_nat i) = None"
      using ie unfolding inv_external_def by blast
    then show "uu_find_buddy_nocheck ?s' q (of_nat i) = None"
      by simp
  qed
  from 1 2 3 4 add show ?thesis by (simp add: pool_inv_def)
qed


lemmas inv_defs = pool_inv_def inv_lists_def inv_blocks_def inv_buddies_def inv_external_def

lemma pool_inv_mem [simp]: "pool_inv (s\<lparr>mem := m\<rparr>) = pool_inv s"
  by (simp add: inv_defs)

lemma pool_inv_free_pages [simp]: "pool_inv (s\<lparr>free_pages := f\<rparr>) = pool_inv s"
  by (simp add: inv_defs)

text \<open>A held page is on no list and inside no group.\<close>

lemma held_not_on_list:
  "inv_lists s \<Longrightarrow> refcount (vmemmap s p) \<noteq> 0 \<Longrightarrow> p \<notin> set (free_area s j)"
  using inv_listsD(3) [of s p j] by auto

lemma held_not_tail:
  assumes "inv_blocks s" "refcount (vmemmap s p) \<noteq> 0"
    and "in_range s q" "order (vmemmap s q) \<noteq> HYP_NO_ORDER"
  shows "\<not> (q < p \<and> p < q + 2 ^ unat (order (vmemmap s q)))"
  using inv_blocksD(3) [OF assms(1,3,4), of p] assms(2) by auto

lemma head_not_tail:
  assumes "inv_blocks s" "order (vmemmap s p) \<noteq> HYP_NO_ORDER"
    and "in_range s q" "order (vmemmap s q) \<noteq> HYP_NO_ORDER"
  shows "\<not> (q < p \<and> p < q + 2 ^ unat (order (vmemmap s q)))"
  using inv_blocksD(3) [OF assms(1,3,4), of p] assms(2) by auto

lemma attach_start:
  assumes inv: "pool_inv s" and rc: "refcount (vmemmap s p) \<noteq> 0" and r: "in_range s p"
    and h: "order (vmemmap s p) \<noteq> HYP_NO_ORDER"
  shows "pool_inv (set_order ((set_refcount s p 0)\<lparr>mem := m\<rparr>) p HYP_NO_ORDER)
    \<and> detached (set_order ((set_refcount s p 0)\<lparr>mem := m\<rparr>) p HYP_NO_ORDER) p
         (unat (order (vmemmap s p)))"
proof -
  let ?t = "set_order ((set_refcount s p 0)\<lparr>mem := m\<rparr>) p HYP_NO_ORDER"
  note il = pool_invD(1) [OF inv] and ib = pool_invD(2) [OF inv]
    and iy = pool_invD(3) [OF inv] and ie = pool_invD(4) [OF inv]
  note mo = inv_listsD(1) [OF il] and dist = inv_listsD(2) [OF il] and lm = inv_listsD(3) [OF il]
  note pl = held_not_on_list [OF il rc]
  note pb = inv_blocksD [OF ib r h]
  have 1: "inv_lists ?t"
    unfolding inv_lists_def
  proof (intro conjI allI impI)
    show "unat (max_order ?t) \<le> MAX_ORDER" using mo by simp
    show "distinct (free_area ?t k)" for k using dist [of k] by simp
    fix k q assume "q \<in> set (free_area ?t k)"
    then have q: "q \<in> set (free_area s k)" by simp
    with pl [of k] have "q \<noteq> p" by auto
    with lm [OF q]
    show "k \<le> unat (max_order ?t)" "unat (order (vmemmap ?t q)) = k" "refcount (vmemmap ?t q) = 0"
      by simp_all
  qed
  have 2: "inv_blocks ?t"
    unfolding inv_blocks_def
  proof (intro allI impI)
    fix q assume "in_range ?t q \<and> order (vmemmap ?t q) \<noteq> HYP_NO_ORDER"
    then have qp: "q \<noteq> p" and qr: "in_range s q" and qh: "order (vmemmap s q) \<noteq> HYP_NO_ORDER"
      by (auto split: if_splits)
    have nt: "t \<noteq> p" if "q < t" "t < q + 2 ^ unat (order (vmemmap s q))" for t
      using held_not_tail [OF ib rc qr qh] that by auto
    show "unat (order (vmemmap ?t q)) \<le> unat (max_order ?t)
        \<and> 2 ^ unat (order (vmemmap ?t q)) dvd q
        \<and> (\<forall>t. q < t \<and> t < q + 2 ^ unat (order (vmemmap ?t q)) \<longrightarrow>
              in_range ?t t \<and> order (vmemmap ?t t) = HYP_NO_ORDER \<and> refcount (vmemmap ?t t) = 0)"
      using inv_blocksD [OF ib qr qh] qp nt by simp
  qed
  have 3: "inv_buddies ?t"
    using iy unfolding inv_buddies_def by simp
  have 4: "inv_external ?t"
    using ie unfolding inv_external_def by simp
  have 5: "detached ?t p (unat (order (vmemmap s p)))"
    unfolding detached_def
  proof (intro conjI allI impI)
    show "in_range ?t p" using r by simp
    show "order (vmemmap ?t p) = HYP_NO_ORDER" by simp
    show "refcount (vmemmap ?t p) = 0" by simp
    show "unat (order (vmemmap s p)) \<le> unat (max_order ?t)" using pb(1) by simp
    show "2 ^ unat (order (vmemmap s p)) dvd p" using pb(2) .
    show "p \<notin> set (free_area ?t j)" for j using pl [of j] by simp
  next
    fix t assume "p < t \<and> t < p + 2 ^ unat (order (vmemmap s p))"
    with pb(3) [of t]
    show "in_range ?t t" "order (vmemmap ?t t) = HYP_NO_ORDER" "refcount (vmemmap ?t t) = 0"
      by simp_all
  next
    fix q assume "in_range ?t q \<and> order (vmemmap ?t q) \<noteq> HYP_NO_ORDER"
    then have qp: "q \<noteq> p" and qr: "in_range s q" and qh: "order (vmemmap s q) \<noteq> HYP_NO_ORDER"
      by (auto split: if_splits)
    with held_not_tail [OF ib rc qr qh]
    show "\<not> (q < p \<and> p < q + 2 ^ unat (order (vmemmap ?t q)))"
      by simp
  qed
  from 1 2 3 4 5 show ?thesis by (simp add: pool_inv_def)
qed

lemma attach_in_range_inv:
  assumes inv: "pool_inv s" and rc: "refcount (vmemmap s p) \<noteq> 0" and r: "in_range s p"
    and h: "order (vmemmap s p) \<noteq> HYP_NO_ORDER"
  shows "\<exists>s'. uu_hyp_attach_page (set_refcount s p 0) p = Inr s' \<and> pool_inv s'"
proof -
  let ?ord = "order (vmemmap s p)"
  let ?m = "memset_zero (hyp_page_to_virt p) (push_bit (unat ?ord) PAGE_SIZE) (mem (set_refcount s p 0))"
  let ?t = "set_order ((set_refcount s p 0)\<lparr>mem := ?m\<rparr>) p HYP_NO_ORDER"
  from attach_start [OF inv rc r h, of ?m]
  have ti: "pool_inv ?t" and td: "detached ?t p (unat ?ord)" by simp_all
  obtain s3 p' ord' where c: "coalesce ?t p ?ord = (s3, p', ord')"
    by (cases "coalesce ?t p ?ord") auto
  with coalesce_inv [OF ti td] have "pool_inv s3" "detached s3 p' (unat ord')"
    "unat ord' + 1 \<le> unat (max_order s3) \<longrightarrow> uu_find_buddy_avail s3 p' ord' = None"
    by simp_all
  from attach_insert_inv [OF this] obtain s' where
    "page_add_to_list (set_order s3 p' ord') p' (unat ord') = Inr s'" "pool_inv s'"
    by blast
  moreover have "\<not> (push_bit 12 p < range_start s \<or> range_end s \<le> push_bit 12 p)"
    using r by (simp add: in_range_def addr_defs not_le)
  ultimately show ?thesis
    using c by (simp add: attach_eq Let_def)
qed

lemma attach_external_inv:
  assumes inv: "pool_inv s" and rc: "refcount (vmemmap s p) \<noteq> 0" and r: "\<not> in_range s p"
    and k: "order (vmemmap s p) \<le> max_order s"
    and ex: "\<forall>j. j < unat (order (vmemmap s p)) \<longrightarrow> uu_find_buddy_nocheck s p (of_nat j) = None"
  shows "\<exists>s'. uu_hyp_attach_page (set_refcount s p 0) p = Inr s' \<and> pool_inv s'"
proof -
  let ?ord = "order (vmemmap s p)"
  let ?k = "unat ?ord"
  let ?m = "memset_zero (hyp_page_to_virt p) (push_bit ?k PAGE_SIZE) (mem (set_refcount s p 0))"
  let ?t = "set_order ((set_refcount s p 0)\<lparr>mem := ?m\<rparr>) p ?ord"
  let ?s' = "list_add_tail (INIT_LIST_HEAD_node ?t (hyp_page_to_virt p)) p ?k"
  note il = pool_invD(1) [OF inv] and ib = pool_invD(2) [OF inv]
    and iy = pool_invD(3) [OF inv] and ie = pool_invD(4) [OF inv]
  note mo = inv_listsD(1) [OF il] and dist = inv_listsD(2) [OF il] and lm = inv_listsD(3) [OF il]
  note pl = held_not_on_list [OF il rc]
  have km: "?k \<le> unat (max_order s)" using k by (simp add: word_le_nat_alt)
  then have k4: "?k \<le> MAX_ORDER" using mo by simp
  have out: "push_bit 12 p < range_start s \<or> range_end s \<le> push_bit 12 p"
    using r by (auto simp: in_range_def addr_defs)
  have att: "uu_hyp_attach_page (set_refcount s p 0) p = Inr ?s'"
    using out k4 by (simp add: attach_eq Let_def page_add_to_list_def)
  have 1: "inv_lists ?s'"
    unfolding inv_lists_def
  proof (intro conjI allI impI)
    show "unat (max_order ?s') \<le> MAX_ORDER" using mo by simp
    show "distinct (free_area ?s' j)" for j using dist [of j] pl [of j] by auto
    fix j q assume "q \<in> set (free_area ?s' j)"
    then consider "q \<in> set (free_area s j)" | "q = p" "j = ?k" by (auto split: if_splits)
    then have "j \<le> unat (max_order ?s') \<and> unat (order (vmemmap ?s' q)) = j
        \<and> refcount (vmemmap ?s' q) = 0"
    proof cases
      case 1
      moreover from 1 pl [of j] have "q \<noteq> p" by auto
      ultimately show ?thesis using lm [of q j] by simp
    next
      case 2
      with km show ?thesis by simp
    qed
    then show "j \<le> unat (max_order ?s')" "unat (order (vmemmap ?s' q)) = j"
      "refcount (vmemmap ?s' q) = 0"
      by blast+
  qed
  have 2: "inv_blocks ?s'"
    unfolding inv_blocks_def
  proof (intro allI impI)
    fix q assume q: "in_range ?s' q \<and> order (vmemmap ?s' q) \<noteq> HYP_NO_ORDER"
    with r have qp: "q \<noteq> p" by auto
    with q have qr: "in_range s q" and qh: "order (vmemmap s q) \<noteq> HYP_NO_ORDER" by simp_all
    have "t \<noteq> p" if "q < t" "t < q + 2 ^ unat (order (vmemmap s q))" for t
      using inv_blocksD(3) [OF ib qr qh, of t] that r by auto
    with inv_blocksD [OF ib qr qh] qp
    show "unat (order (vmemmap ?s' q)) \<le> unat (max_order ?s')
        \<and> 2 ^ unat (order (vmemmap ?s' q)) dvd q
        \<and> (\<forall>t. q < t \<and> t < q + 2 ^ unat (order (vmemmap ?s' q)) \<longrightarrow>
              in_range ?s' t \<and> order (vmemmap ?s' t) = HYP_NO_ORDER \<and> refcount (vmemmap ?s' t) = 0)"
      by simp
  qed
  have 3: "inv_buddies ?s'"
    unfolding inv_buddies_def
  proof (intro allI impI)
    fix j q c
    assume a: "j < unat (max_order ?s') \<and> q \<in> set (free_area ?s' j) \<and> in_range ?s' q
        \<and> uu_find_buddy_nocheck ?s' q (of_nat j) = Some c"
    then have j: "j < unat (max_order s)" and qm: "q \<in> set (free_area ?s' j)" and qr: "in_range s q"
      and nc: "uu_find_buddy_nocheck s q (of_nat j) = Some c"
      by simp_all
    from qm qr r have q: "q \<in> set (free_area s j)" by (auto split: if_splits)
    from nc have "in_range s c" unfolding nocheck_Some_iff by blast
    with r have "c \<noteq> p" by auto
    moreover have "c \<notin> set (free_area s j)"
      using iy j q qr nc unfolding inv_buddies_def by blast
    ultimately show "c \<notin> set (free_area ?s' j)" by auto
  qed
  have 4: "inv_external ?s'"
    unfolding inv_external_def
  proof (intro allI impI)
    fix j q i
    assume a: "q \<in> set (free_area ?s' j) \<and> \<not> in_range ?s' q \<and> i < j"
    then consider "q \<in> set (free_area s j)" | "q = p" "j = ?k" by (auto split: if_splits)
    then have "uu_find_buddy_nocheck s q (of_nat i) = None"
    proof cases
      case 1
      with a ie show ?thesis unfolding inv_external_def by simp blast
    next
      case 2
      with a ex show ?thesis by simp
    qed
    then show "uu_find_buddy_nocheck ?s' q (of_nat i) = None" by simp
  qed
  from 1 2 3 4 att show ?thesis by (simp add: pool_inv_def)
qed


text \<open>The reference count of a page that is on no list and inside no group may change.\<close>

lemma refcount_change_inv:
  assumes inv: "pool_inv s" and pl: "\<forall>j. p \<notin> set (free_area s j)"
    and nt: "\<forall>q. in_range s q \<and> order (vmemmap s q) \<noteq> HYP_NO_ORDER \<longrightarrow>
               \<not> (q < p \<and> p < q + 2 ^ unat (order (vmemmap s q)))"
  shows "pool_inv (set_refcount s p v)"
proof -
  let ?t = "set_refcount s p v"
  note il = pool_invD(1) [OF inv] and ib = pool_invD(2) [OF inv]
    and iy = pool_invD(3) [OF inv] and ie = pool_invD(4) [OF inv]
  have 1: "inv_lists ?t"
    unfolding inv_lists_def
  proof (intro conjI allI impI)
    show "unat (max_order ?t) \<le> MAX_ORDER" using inv_listsD(1) [OF il] by simp
    show "distinct (free_area ?t k)" for k using inv_listsD(2) [OF il, of k] by simp
    fix k q assume "q \<in> set (free_area ?t k)"
    then have q: "q \<in> set (free_area s k)" by simp
    with pl have "q \<noteq> p" by auto
    with inv_listsD(3) [OF il q]
    show "k \<le> unat (max_order ?t)" "unat (order (vmemmap ?t q)) = k" "refcount (vmemmap ?t q) = 0"
      by simp_all
  qed
  have 2: "inv_blocks ?t"
    unfolding inv_blocks_def
  proof (intro allI impI)
    fix q assume "in_range ?t q \<and> order (vmemmap ?t q) \<noteq> HYP_NO_ORDER"
    then have qr: "in_range s q" and qh: "order (vmemmap s q) \<noteq> HYP_NO_ORDER"
      by (auto split: if_splits)
    have "t \<noteq> p" if "q < t" "t < q + 2 ^ unat (order (vmemmap s q))" for t
      using nt qr qh that by blast
    with inv_blocksD [OF ib qr qh]
    show "unat (order (vmemmap ?t q)) \<le> unat (max_order ?t)
        \<and> 2 ^ unat (order (vmemmap ?t q)) dvd q
        \<and> (\<forall>t. q < t \<and> t < q + 2 ^ unat (order (vmemmap ?t q)) \<longrightarrow>
              in_range ?t t \<and> order (vmemmap ?t t) = HYP_NO_ORDER \<and> refcount (vmemmap ?t t) = 0)"
      by simp
  qed
  have 3: "inv_buddies ?t"
    using iy unfolding inv_buddies_def by simp
  have 4: "inv_external ?t"
    using ie unfolding inv_external_def by simp
  from 1 2 3 4 show ?thesis by (simp add: pool_inv_def)
qed

lemma held_refcount_inv:
  assumes inv: "pool_inv s" and rc: "refcount (vmemmap s p) \<noteq> 0"
  shows "pool_inv (set_refcount s p v)"
proof (rule refcount_change_inv [OF inv])
  show "\<forall>j. p \<notin> set (free_area s j)"
    using held_not_on_list [OF pool_invD(1) [OF inv] rc] by blast
  show "\<forall>q. in_range s q \<and> order (vmemmap s q) \<noteq> HYP_NO_ORDER \<longrightarrow>
          \<not> (q < p \<and> p < q + 2 ^ unat (order (vmemmap s q)))"
    using held_not_tail [OF pool_invD(2) [OF inv] rc] by blast
qed


lemma max_order_small:
  assumes "inv_lists s" "ord \<le> max_order s"
  shows "ord \<noteq> HYP_NO_ORDER"
proof
  assume "ord = HYP_NO_ORDER"
  with assms(2) have "255 \<le> unat (max_order s)"
    by (simp add: word_le_nat_alt HYP_NO_ORDER_def)
  with inv_listsD(1) [OF assms(1)] show False
    by (simp add: MAX_ORDER_def)
qed

lemma put_attach_inv:
  assumes inv: "pool_inv s" and ok: "put_ok s p" and k: "order (vmemmap s p) \<le> max_order s"
  shows "\<exists>s'. uu_hyp_attach_page (set_refcount s p 0) p = Inr s' \<and> pool_inv s'"
proof (cases "in_range s p")
  case True
  from ok have rc: "refcount (vmemmap s p) \<noteq> 0" by (simp add: put_ok_def)
  from attach_in_range_inv [OF inv rc True max_order_small [OF pool_invD(1) [OF inv] k]]
  show ?thesis .
next
  case False
  with ok have rc: "refcount (vmemmap s p) \<noteq> 0"
    and ex: "\<forall>j. j < unat (order (vmemmap s p)) \<longrightarrow> uu_find_buddy_nocheck s p (of_nat j) = None"
    by (simp_all add: put_ok_def)
  from attach_external_inv [OF inv rc False k ex] show ?thesis .
qed

lemma put_inv:
  assumes inv: "pool_inv s" and ok: "put_ok s p" and k: "order (vmemmap s p) \<le> max_order s"
    and r: "uu_hyp_put_page s p = Inr s'"
  shows "pool_inv s'"
proof (cases "refcount (vmemmap s p) = 1")
  case True
  from put_attach_inv [OF inv ok k] obtain s2 where
    a: "uu_hyp_attach_page (set_refcount s p 0) p = Inr s2" and i: "pool_inv s2"
    by blast
  from r True a i show ?thesis
    by (auto simp: put_eq split: if_splits)
next
  case False
  from ok have rc: "refcount (vmemmap s p) \<noteq> 0" by (simp add: put_ok_def)
  from r False have "s' = set_refcount s p (refcount (vmemmap s p) - 1)"
    by (simp add: put_eq)
  with held_refcount_inv [OF inv rc] show ?thesis by simp
qed

lemma hyp_put_page_inv:
  assumes inv: "pool_inv s" and ok: "put_ok s (hyp_virt_to_page addr)"
    and r: "hyp_put_page s addr = Inr s'"
  shows "pool_inv s'"
proof -
  let ?p = "hyp_virt_to_page addr"
  from r have k: "order (vmemmap s ?p) \<le> max_order s" and u: "uu_hyp_put_page s ?p = Inr s'"
    by (auto simp: hyp_put_page_def Let_def not_less split: if_splits)
  from put_inv [OF inv ok k u] show ?thesis .
qed



subsection \<open>Splitting keeps the pool well formed\<close>

text \<open>The groups of two different heads inside the range share no frame.\<close>

lemma heads_disjoint:
  assumes ib: "inv_blocks s"
    and p: "in_range s p" "order (vmemmap s p) \<noteq> HYP_NO_ORDER"
    and q: "in_range s q" "order (vmemmap s q) \<noteq> HYP_NO_ORDER"
    and ne: "p \<noteq> q"
    and t: "p \<le> t" "t < p + 2 ^ unat (order (vmemmap s p))"
      "q \<le> t" "t < q + 2 ^ unat (order (vmemmap s q))"
  shows False
proof (cases "unat (order (vmemmap s p)) \<le> unat (order (vmemmap s q))")
  case True
  from aligned_blocks_nested [OF inv_blocksD(2) [OF ib p] inv_blocksD(2) [OF ib q] True t]
  have "q \<le> p" by simp
  with ne t have "q < p \<and> p < q + 2 ^ unat (order (vmemmap s q))" by simp
  with head_not_tail [OF ib p(2) q] show False by simp
next
  case False
  then have le: "unat (order (vmemmap s q)) \<le> unat (order (vmemmap s p))" by simp
  from aligned_blocks_nested [OF inv_blocksD(2) [OF ib q] inv_blocksD(2) [OF ib p] le t(3,4,1,2)]
  have "p \<le> q" by simp
  with ne t have "p < q \<and> q < p + 2 ^ unat (order (vmemmap s p))" by simp
  with head_not_tail [OF ib q(2) p] show False by simp
qed

lemma remove_inv: "pool_inv s \<Longrightarrow> pool_inv (page_remove_from_list s p)"
proof -
  assume inv: "pool_inv s"
  let ?t = "page_remove_from_list s p"
  note il = pool_invD(1) [OF inv] and ib = pool_invD(2) [OF inv]
    and iy = pool_invD(3) [OF inv] and ie = pool_invD(4) [OF inv]
  note dist = inv_listsD(2) [OF il]
  have mem': "q \<in> set (remove1 p (free_area s j)) \<longleftrightarrow> q \<in> set (free_area s j) \<and> q \<noteq> p" for j q
    using dist [of j] by auto
  have 1: "inv_lists ?t"
    unfolding inv_lists_def
  proof (intro conjI allI impI)
    show "unat (max_order ?t) \<le> MAX_ORDER" using inv_listsD(1) [OF il] by simp
    show "distinct (free_area ?t k)" for k using dist [of k] by simp
    fix k q assume "q \<in> set (free_area ?t k)"
    then have "q \<in> set (free_area s k)" by (simp add: mem')
    with inv_listsD(3) [OF il, of q k]
    show "k \<le> unat (max_order ?t)" "unat (order (vmemmap ?t q)) = k" "refcount (vmemmap ?t q) = 0"
      by simp_all
  qed
  have 2: "inv_blocks ?t"
    unfolding inv_blocks_def in_range_proj page_remove_from_list_proj
    by (rule ib [unfolded inv_blocks_def])
  have 3: "inv_buddies ?t"
    using iy unfolding inv_buddies_def by (simp add: mem') blast
  have 4: "inv_external ?t"
    using ie unfolding inv_external_def by (simp add: mem') blast
  from 1 2 3 4 show ?thesis by (simp add: pool_inv_def)
qed

lemma removed_not_on_list:
  assumes "inv_lists s" "p \<in> set (free_area s i)"
  shows "p \<notin> set (free_area (page_remove_from_list s p) j)"
  using inv_listsD(2) [OF assms(1), of j] by simp

lemma extract_step_inv:
  assumes inv: "pool_inv s" and pr: "in_range s p" and ph: "order (vmemmap s p) \<noteq> HYP_NO_ORDER"
    and pl: "\<forall>j. p \<notin> set (free_area s j)"
    and gt: "ord < order (vmemmap s p)"
    and nc: "uu_find_buddy_nocheck s p (order (vmemmap s p) - 1) = Some b"
  shows "\<exists>s3. page_add_to_list (set_order (set_order s p (order (vmemmap s p) - 1)) b
                 (order (vmemmap s p) - 1)) b (unat (order (vmemmap s p) - 1)) = Inr s3
           \<and> pool_inv s3 \<and> in_range s3 p \<and> order (vmemmap s3 p) = order (vmemmap s p) - 1
           \<and> (\<forall>j. p \<notin> set (free_area s3 j))"
proof -
  let ?o = "order (vmemmap s p)"
  let ?k = "unat ?o"
  let ?s2 = "set_order (set_order s p (?o - 1)) b (?o - 1)"
  let ?s3 = "list_add_tail (INIT_LIST_HEAD_node ?s2 (hyp_page_to_virt b)) b (?k - 1)"
  note il = pool_invD(1) [OF inv] and ib = pool_invD(2) [OF inv]
    and iy = pool_invD(3) [OF inv] and ie = pool_invD(4) [OF inv]
  note mo = inv_listsD(1) [OF il] and dist = inv_listsD(2) [OF il] and lm = inv_listsD(3) [OF il]
  note pb = inv_blocksD [OF ib pr ph]
  from gt have k1: "1 \<le> ?k" by (auto simp: word_less_nat_alt)
  then have nz: "?o \<noteq> 0" by auto
  have u: "unat (?o - 1) = ?k - 1" using nz by (rule unat_minus_one)
  have k4: "?k - 1 \<le> MAX_ORDER" using pb(1) mo by simp
  have ho: "?o - 1 \<noteq> HYP_NO_ORDER"
    using k4 u by (intro small_order_is_head) simp
  have sk: "Suc (?k - 1) = ?k" using k1 by simp
  have pw: "(2::nat) ^ ?k = 2 ^ (?k - 1) + 2 ^ (?k - 1)"
    using sk by (metis mult_2 power_Suc)
  have d1: "2 ^ (?k - 1) dvd p"
    using pb(2) by (rule dvd_trans [rotated]) (simp add: le_imp_power_dvd)
  from nc have bx: "b = p XOR 2 ^ (?k - 1)" and br: "in_range s b"
    unfolding nocheck_Some_iff u by blast+
  have b: "b = p + 2 ^ (?k - 1)"
    using xor_pow_aligned [OF d1] pb(2) sk bx by simp
  then have bp: "b \<noteq> p" by simp
  have bt: "p < b" "b < p + 2 ^ ?k" using b pw by simp_all
  from pb(3) [OF bt] have bo: "order (vmemmap s b) = HYP_NO_ORDER" and bc: "refcount (vmemmap s b) = 0"
    by simp_all
  have bl: "b \<notin> set (free_area s j)" for j
  proof
    assume "b \<in> set (free_area s j)"
    from lm [OF this] have "unat (order (vmemmap s b)) \<le> MAX_ORDER" using mo by simp
    with bo show False by (simp add: no_order_unat MAX_ORDER_def)
  qed
  have ba: "2 ^ (?k - 1) dvd b"
    unfolding b using d1 by simp
  have add: "page_add_to_list ?s2 b (unat (?o - 1)) = Inr ?s3"
    using k4 u by (simp add: page_add_to_list_def)
  have other: "t \<noteq> p \<and> t \<noteq> b"
    if q: "in_range s q" "order (vmemmap s q) \<noteq> HYP_NO_ORDER" "q \<noteq> p"
      and t: "q \<le> t" "t < q + 2 ^ unat (order (vmemmap s q))" for q t
  proof -
    have "t \<noteq> p"
      using heads_disjoint [OF ib pr ph q(1,2), of p] q(3) t by auto
    moreover have "t \<noteq> b"
      using heads_disjoint [OF ib pr ph q(1,2), of b] q(3) t bt by auto
    ultimately show ?thesis by simp
  qed
  have 1: "inv_lists ?s3"
    unfolding inv_lists_def
  proof (intro conjI allI impI)
    show "unat (max_order ?s3) \<le> MAX_ORDER" using mo by simp
    show "distinct (free_area ?s3 j)" for j by (simp add: dist bl)
    fix j q assume "q \<in> set (free_area ?s3 j)"
    then consider "q \<in> set (free_area s j)" | "q = b" "j = ?k - 1" by (auto split: if_splits)
    then have "j \<le> unat (max_order ?s3) \<and> unat (order (vmemmap ?s3 q)) = j
        \<and> refcount (vmemmap ?s3 q) = 0"
    proof cases
      case 1
      with pl bl have "q \<noteq> p" "q \<noteq> b" by auto
      with lm [OF 1] show ?thesis by simp
    next
      case 2
      with pb(1) u bc bp show ?thesis by simp
    qed
    then show "j \<le> unat (max_order ?s3)" "unat (order (vmemmap ?s3 q)) = j"
      "refcount (vmemmap ?s3 q) = 0"
      by blast+
  qed
  have 2: "inv_blocks ?s3"
    unfolding inv_blocks_def
  proof (intro allI impI)
    fix q assume q: "in_range ?s3 q \<and> order (vmemmap ?s3 q) \<noteq> HYP_NO_ORDER"
    then have qr: "in_range s q" by simp
    consider "q = p" | "q = b" | "q \<noteq> p" "q \<noteq> b" by blast
    then show "unat (order (vmemmap ?s3 q)) \<le> unat (max_order ?s3)
        \<and> 2 ^ unat (order (vmemmap ?s3 q)) dvd q
        \<and> (\<forall>t. q < t \<and> t < q + 2 ^ unat (order (vmemmap ?s3 q)) \<longrightarrow>
              in_range ?s3 t \<and> order (vmemmap ?s3 t) = HYP_NO_ORDER \<and> refcount (vmemmap ?s3 t) = 0)"
    proof cases
      case 1
      have "in_range s t \<and> order (vmemmap s t) = HYP_NO_ORDER \<and> refcount (vmemmap s t) = 0
          \<and> t \<noteq> p \<and> t \<noteq> b"
        if "p < t" "t < p + 2 ^ (?k - 1)" for t
        using pb(3) [of t] that pw b by simp
      with 1 bp u pb(1) d1 show ?thesis by simp
    next
      case 2
      have "in_range s t \<and> order (vmemmap s t) = HYP_NO_ORDER \<and> refcount (vmemmap s t) = 0
          \<and> t \<noteq> p \<and> t \<noteq> b"
        if "b < t" "t < b + 2 ^ (?k - 1)" for t
        using pb(3) [of t] that pw b by simp
      with 2 bp u pb(1) ba show ?thesis by simp
    next
      case 3
      with q have qh: "order (vmemmap s q) \<noteq> HYP_NO_ORDER" by simp
      have "t \<noteq> p \<and> t \<noteq> b" if "q < t" "t < q + 2 ^ unat (order (vmemmap s q))" for t
        using other [OF qr qh 3(1), of t] that by simp
      with inv_blocksD [OF ib qr qh] 3 show ?thesis by simp
    qed
  qed
  have 3: "inv_buddies ?s3"
    unfolding inv_buddies_def
  proof (intro allI impI)
    fix j q c
    assume a: "j < unat (max_order ?s3) \<and> q \<in> set (free_area ?s3 j) \<and> in_range ?s3 q
        \<and> uu_find_buddy_nocheck ?s3 q (of_nat j) = Some c"
    then have j: "j < unat (max_order s)" and qm: "q \<in> set (free_area ?s3 j)" and qr: "in_range s q"
      and ncq: "uu_find_buddy_nocheck s q (of_nat j) = Some c"
      by simp_all
    have uj: "unat (of_nat j :: 8 word) = j"
      using j mo by (intro unat_small_of_nat) simp
    from ncq have c: "c = q XOR 2 ^ j" unfolding nocheck_Some_iff uj by blast
    from qm consider "q \<in> set (free_area s j)" | "q = b" "j = ?k - 1" by (auto split: if_splits)
    then show "c \<notin> set (free_area ?s3 j)"
    proof cases
      case 1
      have "c \<notin> set (free_area s j)"
        using iy j 1 qr ncq unfolding inv_buddies_def by blast
      moreover have "\<not> (c = b \<and> j = ?k - 1)"
      proof
        assume "c = b \<and> j = ?k - 1"
        with c bx have "q XOR 2 ^ (?k - 1) = p XOR 2 ^ (?k - 1)" by simp
        then have "(q XOR 2 ^ (?k - 1)) XOR 2 ^ (?k - 1) = (p XOR 2 ^ (?k - 1)) XOR 2 ^ (?k - 1)"
          by simp
        then have "q = p" unfolding xor_pow_involution .
        with 1 pl show False by simp
      qed
      ultimately show ?thesis by auto
    next
      case 2
      with c bx have "c = p" by (simp add: xor_pow_involution)
      with pl bp show ?thesis by simp
    qed
  qed
  have 4: "inv_external ?s3"
    unfolding inv_external_def
  proof (intro allI impI)
    fix j q i
    assume a: "q \<in> set (free_area ?s3 j) \<and> \<not> in_range ?s3 q \<and> i < j"
    with br have "q \<in> set (free_area s j)" by (auto split: if_splits)
    with a ie have "uu_find_buddy_nocheck s q (of_nat i) = None"
      unfolding inv_external_def by simp blast
    then show "uu_find_buddy_nocheck ?s3 q (of_nat i) = None" by simp
  qed
  have 5: "\<forall>j. p \<notin> set (free_area ?s3 j)"
    using pl bp by simp
  have 6: "order (vmemmap ?s3 p) = ?o - 1" using bp by simp
  from 1 2 3 4 5 6 add pr show ?thesis
    unfolding u by (simp add: pool_inv_def)
qed


lemma extract_loop_inv:
  "pool_inv s \<Longrightarrow> in_range s p \<Longrightarrow> order (vmemmap s p) \<noteq> HYP_NO_ORDER \<Longrightarrow>
   \<forall>j. p \<notin> set (free_area s j) \<Longrightarrow>
   \<exists>s1. extract_loop s p ord = Inr s1 \<and> pool_inv s1 \<and> order (vmemmap s1 p) \<noteq> HYP_NO_ORDER
      \<and> (\<forall>j. p \<notin> set (free_area s1 j)) \<and> in_range s1 = in_range s"
proof (induction s p ord rule: extract_loop.induct)
  case (1 s p ord)
  let ?o = "order (vmemmap s p)"
  show ?case
  proof (cases "ord < ?o")
    case False
    with "1.prems" show ?thesis
      by (subst extract_step) simp
  next
    case True
    show ?thesis
    proof (cases "uu_find_buddy_nocheck s p (?o - 1)")
      case None
      with True "1.prems" show ?thesis
        by (subst extract_step) simp
    next
      case (Some b)
      from extract_step_inv [OF "1.prems"(1-4) True Some] obtain s3 where
        add: "page_add_to_list (set_order (set_order s p (?o - 1)) b (?o - 1)) b (unat (?o - 1)) = Inr s3"
        and i3: "pool_inv s3" and r3: "in_range s3 p" and o3: "order (vmemmap s3 p) = ?o - 1"
        and l3: "\<forall>j. p \<notin> set (free_area s3 j)"
        by blast
      have bp: "b \<noteq> p" using Some by (rule nocheck_neq)
      have a: "page_add_to_list
          (set_order (set_order s p (?o - 1)) b (order (vmemmap (set_order s p (?o - 1)) p)))
          b (unat (order (vmemmap (set_order (set_order s p (?o - 1)) b
                (order (vmemmap (set_order s p (?o - 1)) p))) b))) = Inr s3"
        using add by simp
      have rr: "in_range s3 = in_range s"
        using page_add_to_list_proj(3,4) [OF add] by (simp add: in_range_def fun_eq_iff)
      have h3: "order (vmemmap s3 p) \<noteq> HYP_NO_ORDER"
      proof -
        from True have "?o \<noteq> 0" by (auto simp: word_less_nat_alt)
        then have "unat (?o - 1) = unat ?o - 1" by (rule unat_minus_one)
        then have "unat (order (vmemmap s3 p)) \<le> unat ?o"
          unfolding o3 by simp
        moreover have "unat ?o \<le> MAX_ORDER"
          using inv_blocksD(1) [OF pool_invD(2) [OF "1.prems"(1)] "1.prems"(2,3)]
            inv_listsD(1) [OF pool_invD(1) [OF "1.prems"(1)]] by simp
        ultimately show ?thesis by (intro small_order_is_head) simp
      qed
      from "1.IH" [OF True Some refl refl a i3 r3 h3 l3] obtain s1 where
        "extract_loop s3 p ord = Inr s1" "pool_inv s1" "order (vmemmap s1 p) \<noteq> HYP_NO_ORDER"
        "\<forall>j. p \<notin> set (free_area s1 j)" "in_range s1 = in_range s3"
        by blast
      moreover have "extract_loop s p ord = extract_loop s3 p ord"
        using True Some add by (subst extract_step) simp
      ultimately show ?thesis using rr by simp
    qed
  qed
qed

text \<open>A head outside the range is handed out whole.\<close>

lemma extract_loop_external:
  assumes ie: "inv_external s" and m: "p \<in> set (free_area s i)" and r: "\<not> in_range s p"
    and o: "unat (order (vmemmap s p)) = i"
  shows "extract_loop (page_remove_from_list s p) p ord = Inr (page_remove_from_list s p)"
proof (cases "ord < order (vmemmap s p)")
  case False
  then show ?thesis by (subst extract_step) simp
next
  case True
  let ?o = "order (vmemmap s p)"
  from True have nz: "?o \<noteq> 0" by (auto simp: word_less_nat_alt)
  then have u: "unat (?o - 1) = unat ?o - 1" by (rule unat_minus_one)
  from nz have "0 < unat ?o" by (simp add: unat_gt_0)
  then have lt: "unat ?o - 1 < i" using o by simp
  have w: "(of_nat (unat ?o - 1) :: 8 word) = ?o - 1"
    using of_nat_unat [of "?o - 1", where ?'a = "8 word"] u by simp
  have "uu_find_buddy_nocheck s p (of_nat (unat ?o - 1)) = None"
    using ie m r lt unfolding inv_external_def by blast
  then have "uu_find_buddy_nocheck s p (?o - 1) = None" unfolding w .
  with True show ?thesis by (subst extract_step) simp
qed

lemma scan_total:
  "unat (max_order s) \<le> MAX_ORDER \<Longrightarrow>
   \<exists>i. scan_free_area s j = Inr i \<and> j \<le> i \<and> (i \<le> unat (max_order s) \<longrightarrow> free_area s i \<noteq> [])"
proof (induction s j rule: scan_free_area.induct)
  case (1 s j)
  show ?case
  proof (cases "j \<le> unat (max_order s)")
    case False
    then show ?thesis by (subst scan_free_area.simps) simp
  next
    case True
    with "1.prems" have b: "\<not> j > MAX_ORDER" by simp
    show ?thesis
    proof (cases "list_empty s j")
      case False
      with True b show ?thesis
        by (subst scan_free_area.simps) (simp add: list_empty_def)
    next
      case e: True
      from "1.IH" [OF True b e "1.prems"] obtain i where
        "scan_free_area s (j + 1) = Inr i" "j + 1 \<le> i"
        "i \<le> unat (max_order s) \<longrightarrow> free_area s i \<noteq> []"
        by blast
      with True b e show ?thesis
        by (subst scan_free_area.simps) simp
    qed
  qed
qed

lemma alloc_inv:
  assumes inv: "pool_inv s"
  shows "\<exists>r s'. hyp_alloc_pages s ord = Inr (r, s') \<and> pool_inv s'"
proof -
  note il = pool_invD(1) [OF inv] and ib = pool_invD(2) [OF inv] and ie = pool_invD(4) [OF inv]
  note mo = inv_listsD(1) [OF il]
  from scan_total [OF mo, of "unat ord"] obtain i where
    sc: "scan_free_area s (unat ord) = Inr i"
    and ne: "i \<le> unat (max_order s) \<longrightarrow> free_area s i \<noteq> []"
    by blast
  show ?thesis
  proof (cases "i \<le> unat (max_order s)")
    case False
    with sc inv show ?thesis by (simp add: alloc_eq)
  next
    case True
    let ?p = "hd (free_area s i)"
    let ?s0 = "page_remove_from_list s ?p"
    from True ne have m: "?p \<in> set (free_area s i)" by simp
    from inv_listsD(3) [OF il m] have o: "unat (order (vmemmap s ?p)) = i" by simp
    have i0: "pool_inv ?s0" using inv by (rule remove_inv)
    have l0: "\<forall>j. ?p \<notin> set (free_area ?s0 j)"
      using removed_not_on_list [OF il m] by blast
    have h: "order (vmemmap s ?p) \<noteq> HYP_NO_ORDER"
      using o True mo by (intro small_order_is_head) simp
    have "\<exists>s1. extract_loop ?s0 ?p ord = Inr s1 \<and> pool_inv s1
        \<and> (\<forall>j. ?p \<notin> set (free_area s1 j))
        \<and> (\<forall>q. in_range s1 q \<and> order (vmemmap s1 q) \<noteq> HYP_NO_ORDER \<longrightarrow>
               \<not> (q < ?p \<and> ?p < q + 2 ^ unat (order (vmemmap s1 q))))
        \<and> unat (order (vmemmap s1 ?p)) \<le> MAX_ORDER"
    proof (cases "in_range s ?p")
      case r: True
      have "in_range ?s0 ?p" using r by simp
      moreover have "order (vmemmap ?s0 ?p) \<noteq> HYP_NO_ORDER" using h by simp
      ultimately obtain s1 where e: "extract_loop ?s0 ?p ord = Inr s1" and i1: "pool_inv s1"
        and h1: "order (vmemmap s1 ?p) \<noteq> HYP_NO_ORDER" and l1: "\<forall>j. ?p \<notin> set (free_area s1 j)"
        and r1: "in_range s1 = in_range ?s0"
        using extract_loop_inv [OF i0 _ _ l0, of ord] by blast
      have pr1: "in_range s1 ?p" using r1 r by simp
      have "\<not> (q < ?p \<and> ?p < q + 2 ^ unat (order (vmemmap s1 q)))"
        if "in_range s1 q" "order (vmemmap s1 q) \<noteq> HYP_NO_ORDER" for q
        using head_not_tail [OF pool_invD(2) [OF i1] h1 that] .
      moreover have "unat (order (vmemmap s1 ?p)) \<le> MAX_ORDER"
        using inv_blocksD(1) [OF pool_invD(2) [OF i1] pr1 h1] inv_listsD(1) [OF pool_invD(1) [OF i1]]
        by simp
      ultimately show ?thesis using e i1 l1 by blast
    next
      case r: False
      have e: "extract_loop ?s0 ?p ord = Inr ?s0"
        using ie m r o by (rule extract_loop_external)
      have "\<not> (q < ?p \<and> ?p < q + 2 ^ unat (order (vmemmap ?s0 q)))"
        if "in_range ?s0 q" "order (vmemmap ?s0 q) \<noteq> HYP_NO_ORDER" for q
      proof
        assume a: "q < ?p \<and> ?p < q + 2 ^ unat (order (vmemmap ?s0 q))"
        from that have "in_range s q" "order (vmemmap s q) \<noteq> HYP_NO_ORDER" by simp_all
        from inv_blocksD(3) [OF ib this, of ?p] a r show False by simp
      qed
      moreover have "unat (order (vmemmap ?s0 ?p)) \<le> MAX_ORDER"
        using o True mo by simp
      ultimately show ?thesis using e i0 l0 by blast
    qed
    then obtain s1 where e: "extract_loop ?s0 ?p ord = Inr s1" and i1: "pool_inv s1"
      and l1: "\<forall>j. ?p \<notin> set (free_area s1 j)"
      and t1: "\<forall>q. in_range s1 q \<and> order (vmemmap s1 q) \<noteq> HYP_NO_ORDER \<longrightarrow>
               \<not> (q < ?p \<and> ?p < q + 2 ^ unat (order (vmemmap s1 q)))"
      and k1: "unat (order (vmemmap s1 ?p)) \<le> MAX_ORDER"
      by blast
    have "pool_inv (hyp_set_page_refcounted s1 ?p)"
      unfolding hyp_set_page_refcounted_def using i1 l1 t1 by (rule refcount_change_inv)
    moreover have "unat (order (vmemmap s1 ?p)) < 31"
      using k1 by (simp add: MAX_ORDER_def)
    ultimately show ?thesis
      using sc True e by (simp add: alloc_eq)
  qed
qed


subsection \<open>Splitting a held group into pages\<close>

lemma split_fold_proj:
  "free_area (fold (\<lambda>i s'. hyp_set_page_refcounted (set_order s' (p + i) 0) (p + i)) xs s) = free_area s"
  "range_start (fold (\<lambda>i s'. hyp_set_page_refcounted (set_order s' (p + i) 0) (p + i)) xs s) = range_start s"
  "range_end (fold (\<lambda>i s'. hyp_set_page_refcounted (set_order s' (p + i) 0) (p + i)) xs s) = range_end s"
  "max_order (fold (\<lambda>i s'. hyp_set_page_refcounted (set_order s' (p + i) 0) (p + i)) xs s) = max_order s"
  "order (vmemmap (fold (\<lambda>i s'. hyp_set_page_refcounted (set_order s' (p + i) 0) (p + i)) xs s) q)
     = (if \<exists>i\<in>set xs. q = p + i then 0 else order (vmemmap s q))"
  "refcount (vmemmap (fold (\<lambda>i s'. hyp_set_page_refcounted (set_order s' (p + i) 0) (p + i)) xs s) q)
     = (if \<exists>i\<in>set xs. q = p + i then 1 else refcount (vmemmap s q))"
  by (induction xs arbitrary: s; auto)+

lemma split_result:
  assumes "unat (order (vmemmap s p)) < 31"
  shows "\<exists>s'. hyp_split_page s p = Inr s'
     \<and> free_area s' = free_area s \<and> range_start s' = range_start s \<and> range_end s' = range_end s
     \<and> max_order s' = max_order s
     \<and> (\<forall>q. order (vmemmap s' q) =
             (if p \<le> q \<and> q < p + 2 ^ unat (order (vmemmap s p)) then 0 else order (vmemmap s q)))
     \<and> (\<forall>q. refcount (vmemmap s' q) =
             (if p < q \<and> q < p + 2 ^ unat (order (vmemmap s p)) then 1 else refcount (vmemmap s q)))"
proof -
  let ?k = "unat (order (vmemmap s p))"
  have im: "(\<exists>i\<in>{Suc 0..<2 ^ ?k}. q = p + i) \<longleftrightarrow> p < q \<and> q < p + 2 ^ ?k" for q
  proof
    assume "\<exists>i\<in>{Suc 0..<2 ^ ?k}. q = p + i"
    then show "p < q \<and> q < p + 2 ^ ?k" by auto
  next
    assume a: "p < q \<and> q < p + 2 ^ ?k"
    then have "q - p \<in> {Suc 0..<2 ^ ?k}" "q = p + (q - p)" by auto
    then show "\<exists>i\<in>{Suc 0..<2 ^ ?k}. q = p + i" by blast
  qed
  have "0 < (2::nat) ^ ?k" by simp
  then have p0: "p < p + 2 ^ ?k" by simp
  show ?thesis
    using assms p0 unfolding hyp_split_page_def Let_def
    by (simp add: split_fold_proj im del: upt_Suc)
qed

lemma split_inv:
  assumes inv: "pool_inv s" and ok: "split_ok s p"
  shows "\<exists>s'. hyp_split_page s p = Inr s' \<and> pool_inv s'"
proof -
  let ?k = "unat (order (vmemmap s p))"
  note il = pool_invD(1) [OF inv] and ib = pool_invD(2) [OF inv]
    and iy = pool_invD(3) [OF inv] and ie = pool_invD(4) [OF inv]
  note mo = inv_listsD(1) [OF il] and dist = inv_listsD(2) [OF il] and lm = inv_listsD(3) [OF il]
  from ok have rc: "refcount (vmemmap s p) \<noteq> 0" and ko: "order (vmemmap s p) \<le> max_order s"
    and cases: "in_range s p
        \<or> (\<forall>i. 0 < i \<and> i < 2 ^ ?k \<longrightarrow> \<not> in_range s (p + i) \<and> (\<forall>j. p + i \<notin> set (free_area s j)))"
    unfolding split_ok_def by blast+
  have k4: "?k \<le> MAX_ORDER" using ko mo by (simp add: word_le_nat_alt)
  have ph: "order (vmemmap s p) \<noteq> HYP_NO_ORDER" using k4 by (rule small_order_is_head)
  from k4 have "?k < 31" by (simp add: MAX_ORDER_def)
  from split_result [OF this] obtain s' where
    sp: "hyp_split_page s p = Inr s'" and fa: "free_area s' = free_area s"
    and rs: "range_start s' = range_start s" and re: "range_end s' = range_end s"
    and ms: "max_order s' = max_order s"
    and od: "\<And>q. order (vmemmap s' q) = (if p \<le> q \<and> q < p + 2 ^ ?k then 0 else order (vmemmap s q))"
    and rf: "\<And>q. refcount (vmemmap s' q) = (if p < q \<and> q < p + 2 ^ ?k then 1 else refcount (vmemmap s q))"
    by blast
  have ir: "in_range s' = in_range s"
    using rs re by (simp add: in_range_def fun_eq_iff)
  have nc: "uu_find_buddy_nocheck s' = uu_find_buddy_nocheck s"
    using rs re by (simp add: nocheck_eq fun_eq_iff)
  have "(\<forall>q j. q \<in> set (free_area s j) \<longrightarrow> \<not> (p \<le> q \<and> q < p + 2 ^ ?k))
      \<and> (\<forall>q t. in_range s q \<and> order (vmemmap s q) \<noteq> HYP_NO_ORDER \<and> \<not> (p \<le> q \<and> q < p + 2 ^ ?k)
            \<and> q < t \<and> t < q + 2 ^ unat (order (vmemmap s q)) \<longrightarrow> \<not> (p \<le> t \<and> t < p + 2 ^ ?k))"
  proof (cases "in_range s p")
    case True
    note pb = inv_blocksD [OF ib True ph]
    have "\<not> (p \<le> q \<and> q < p + 2 ^ ?k)" if q: "q \<in> set (free_area s j)" for q j
    proof
      assume a: "p \<le> q \<and> q < p + 2 ^ ?k"
      from held_not_on_list [OF il rc, of j] q have "q \<noteq> p" by auto
      with a pb(3) [of q] have "order (vmemmap s q) = HYP_NO_ORDER" by simp
      moreover from lm [OF q] mo have "unat (order (vmemmap s q)) \<le> MAX_ORDER" by simp
      ultimately show False by (simp add: no_order_unat MAX_ORDER_def)
    qed
    moreover have "\<not> (p \<le> t \<and> t < p + 2 ^ ?k)"
      if "in_range s q" "order (vmemmap s q) \<noteq> HYP_NO_ORDER" "\<not> (p \<le> q \<and> q < p + 2 ^ ?k)"
        "q < t" "t < q + 2 ^ unat (order (vmemmap s q))" for q t
      using heads_disjoint [OF ib True ph that(1,2), of t] that(3-5) by auto
    ultimately show ?thesis by blast
  next
    case False
    with cases have ex: "\<not> in_range s (p + i) \<and> (\<forall>j. p + i \<notin> set (free_area s j))"
      if "0 < i" "i < 2 ^ ?k" for i
      using that by blast
    have out: "\<not> in_range s t \<and> (\<forall>j. t \<notin> set (free_area s j))" if "p \<le> t" "t < p + 2 ^ ?k" for t
    proof (cases "t = p")
      case True
      with False held_not_on_list [OF il rc] show ?thesis by simp
    next
      case ne: False
      with that ex [of "t - p"] show ?thesis by simp
    qed
    have "\<not> (p \<le> t \<and> t < p + 2 ^ ?k)"
      if "in_range s q" "order (vmemmap s q) \<noteq> HYP_NO_ORDER"
        "q < t" "t < q + 2 ^ unat (order (vmemmap s q))" for q t
      using inv_blocksD(3) [OF ib that] out [of t] by blast
    with out show ?thesis by blast
  qed
  then have nl: "\<And>q j. q \<in> set (free_area s j) \<Longrightarrow> \<not> (p \<le> q \<and> q < p + 2 ^ ?k)"
    and nt: "\<And>q t. in_range s q \<Longrightarrow> order (vmemmap s q) \<noteq> HYP_NO_ORDER \<Longrightarrow>
        \<not> (p \<le> q \<and> q < p + 2 ^ ?k) \<Longrightarrow> q < t \<Longrightarrow> t < q + 2 ^ unat (order (vmemmap s q)) \<Longrightarrow>
        \<not> (p \<le> t \<and> t < p + 2 ^ ?k)"
    by blast+
  have 1: "inv_lists s'"
    unfolding inv_lists_def fa ms
  proof (intro conjI allI impI)
    show "unat (max_order s) \<le> MAX_ORDER" by (rule mo)
    show "distinct (free_area s j)" for j by (rule dist)
    fix j q assume q: "q \<in> set (free_area s j)"
    from nl [OF q] have "order (vmemmap s' q) = order (vmemmap s q)"
      "refcount (vmemmap s' q) = refcount (vmemmap s q)"
      by (auto simp: od rf)
    with lm [OF q]
    show "j \<le> unat (max_order s)" "unat (order (vmemmap s' q)) = j" "refcount (vmemmap s' q) = 0"
      by simp_all
  qed
  have 2: "inv_blocks s'"
    unfolding inv_blocks_def ir ms
  proof (intro allI impI)
    fix q assume q: "in_range s q \<and> order (vmemmap s' q) \<noteq> HYP_NO_ORDER"
    show "unat (order (vmemmap s' q)) \<le> unat (max_order s)
        \<and> 2 ^ unat (order (vmemmap s' q)) dvd q
        \<and> (\<forall>t. q < t \<and> t < q + 2 ^ unat (order (vmemmap s' q)) \<longrightarrow>
              in_range s t \<and> order (vmemmap s' t) = HYP_NO_ORDER \<and> refcount (vmemmap s' t) = 0)"
    proof (cases "p \<le> q \<and> q < p + 2 ^ ?k")
      case True
      then have "order (vmemmap s' q) = 0" by (simp add: od)
      then show ?thesis by auto
    next
      case False
      then have o: "order (vmemmap s' q) = order (vmemmap s q)" by (auto simp: od)
      with q have qr: "in_range s q" and qh: "order (vmemmap s q) \<noteq> HYP_NO_ORDER" by simp_all
      have "order (vmemmap s' t) = order (vmemmap s t) \<and> refcount (vmemmap s' t) = refcount (vmemmap s t)"
        if "q < t" "t < q + 2 ^ unat (order (vmemmap s q))" for t
        using nt [OF qr qh False that] by (auto simp: od rf)
      with inv_blocksD [OF ib qr qh] show ?thesis unfolding o by simp
    qed
  qed
  have 3: "inv_buddies s'"
    unfolding inv_buddies_def fa ms ir nc by (rule iy [unfolded inv_buddies_def])
  have 4: "inv_external s'"
    unfolding inv_external_def fa ir nc by (rule ie [unfolded inv_external_def])
  from 1 2 3 4 sp show ?thesis by (simp add: pool_inv_def)
qed


subsection \<open>Initialisation establishes the well-formed pool\<close>

text \<open>Coalescing leaves the reference counts alone and touches no held page.\<close>

lemma coalesce_frame:
  "case coalesce s p ord of (s', p', ord') \<Rightarrow>
     range_start s' = range_start s \<and> range_end s' = range_end s
     \<and> (\<forall>q. refcount (vmemmap s' q) = refcount (vmemmap s q))
     \<and> (\<forall>q. refcount (vmemmap s q) \<noteq> 0 \<longrightarrow> order (vmemmap s' q) = order (vmemmap s q))
     \<and> (p' = p \<or> refcount (vmemmap s p') = 0)"
proof (induction s p ord rule: coalesce.induct)
  case (1 s p ord)
  show ?case
  proof (cases "unat ord + 1 \<le> unat (max_order s)")
    case False
    then show ?thesis by (subst coalesce.simps) simp
  next
    case True
    show ?thesis
    proof (cases "uu_find_buddy_avail s p ord")
      case None
      with True show ?thesis by (subst coalesce.simps) simp
    next
      case (Some b)
      let ?s1 = "set_order (page_remove_from_list s b) b HYP_NO_ORDER"
      from Some have bc: "refcount (vmemmap s b) = 0" unfolding avail_Some_iff by blast
      obtain s' p' ord' where c: "coalesce ?s1 (min p b) (ord + 1) = (s', p', ord')"
        by (cases "coalesce ?s1 (min p b) (ord + 1)") auto
      from "1.IH" [OF True Some] c have
        r: "range_start s' = range_start s" "range_end s' = range_end s"
        and rf: "\<forall>q. refcount (vmemmap s' q) = refcount (vmemmap s q)"
        and od: "\<forall>q. refcount (vmemmap ?s1 q) \<noteq> 0 \<longrightarrow> order (vmemmap s' q) = order (vmemmap ?s1 q)"
        and hd: "p' = min p b \<or> refcount (vmemmap ?s1 p') = 0"
        by simp_all
      have "order (vmemmap s' q) = order (vmemmap s q)" if "refcount (vmemmap s q) \<noteq> 0" for q
      proof -
        from that bc have "q \<noteq> b" by auto
        with od [rule_format, of q] that show ?thesis by simp
      qed
      moreover have "p' = p \<or> refcount (vmemmap s p') = 0"
        using hd bc by (auto simp: min_def split: if_splits)
      moreover have "coalesce s p ord = (s', p', ord')"
        using True Some c by (subst coalesce.simps) simp
      ultimately show ?thesis using r rf by simp
    qed
  qed
qed

lemma attach_frame:
  assumes a: "uu_hyp_attach_page t p = Inr s'" and q: "q \<noteq> p" "refcount (vmemmap t q) \<noteq> 0"
  shows "order (vmemmap s' q) = order (vmemmap t q) \<and> refcount (vmemmap s' q) = refcount (vmemmap t q)
     \<and> range_start s' = range_start t \<and> range_end s' = range_end t"
proof (cases "push_bit 12 p < range_start t \<or> range_end t \<le> push_bit 12 p")
  case True
  with a q show ?thesis
    by (auto simp: attach_eq Let_def page_add_to_list_def split: if_splits)
next
  case False
  let ?m = "memset_zero (hyp_page_to_virt p) (push_bit (unat (order (vmemmap t p))) PAGE_SIZE) (mem t)"
  let ?t1 = "set_order (t\<lparr>mem := ?m\<rparr>) p HYP_NO_ORDER"
  obtain s3 p' ord' where c: "coalesce ?t1 p (order (vmemmap t p)) = (s3, p', ord')"
    by (cases "coalesce ?t1 p (order (vmemmap t p))") auto
  from coalesce_frame [of ?t1 p "order (vmemmap t p)"] c have
    r: "range_start s3 = range_start t" "range_end s3 = range_end t"
    and rf: "\<forall>q. refcount (vmemmap s3 q) = refcount (vmemmap t q)"
    and od: "\<forall>q. refcount (vmemmap ?t1 q) \<noteq> 0 \<longrightarrow> order (vmemmap s3 q) = order (vmemmap ?t1 q)"
    and hd: "p' = p \<or> refcount (vmemmap ?t1 p') = 0"
    by simp_all
  from hd q have qp': "q \<noteq> p'" by auto
  from od [rule_format, of q] q have o3: "order (vmemmap s3 q) = order (vmemmap t q)" by simp
  from a False c have "page_add_to_list (set_order s3 p' ord') p' (unat ord') = Inr s'"
    by (simp add: attach_eq Let_def)
  from page_add_to_list_proj(2-4) [OF this] qp' o3 rf r show ?thesis by simp
qed

lemma put_frame:
  assumes a: "uu_hyp_put_page s p = Inr s'" and q: "q \<noteq> p" "refcount (vmemmap s q) \<noteq> 0"
  shows "order (vmemmap s' q) = order (vmemmap s q) \<and> refcount (vmemmap s' q) = refcount (vmemmap s q)
     \<and> range_start s' = range_start s \<and> range_end s' = range_end s"
proof (cases "refcount (vmemmap s p) = 1")
  case False
  with a q show ?thesis by (auto simp: put_eq)
next
  case True
  with a obtain s2 where at: "uu_hyp_attach_page (set_refcount s p 0) p = Inr s2"
    and s': "s' = s2\<lparr>free_pages := free_pages s2 + push_bit (unat (order (vmemmap s2 p))) 1\<rparr>"
    by (auto simp: put_eq split: sum.splits if_splits)
  from attach_frame [OF at q(1)] q show ?thesis
    unfolding s' by simp
qed

lemma put_pages_inv:
  "pool_inv s \<Longrightarrow> distinct ps \<Longrightarrow>
   \<forall>q\<in>set ps. in_range s q \<and> refcount (vmemmap s q) \<noteq> 0 \<and> order (vmemmap s q) = 0 \<Longrightarrow>
   put_pages s ps = Inr s' \<Longrightarrow> pool_inv s'"
proof (induction ps arbitrary: s)
  case Nil
  then show ?case by simp
next
  case (Cons p ps)
  from Cons.prems(4) obtain s1 where p1: "uu_hyp_put_page s p = Inr s1"
    and rest: "put_pages s1 ps = Inr s'"
    by (auto split: sum.splits)
  from Cons.prems(3) have ok: "put_ok s p" and o: "order (vmemmap s p) = 0"
    by (simp_all add: put_ok_def)
  have i1: "pool_inv s1"
    using Cons.prems(1) ok _ p1 by (rule put_inv) (simp add: o)
  have "in_range s1 q \<and> refcount (vmemmap s1 q) \<noteq> 0 \<and> order (vmemmap s1 q) = 0" if "q \<in> set ps" for q
  proof -
    from that Cons.prems(2,3) have "q \<noteq> p" "refcount (vmemmap s q) \<noteq> 0" "in_range s q"
      "order (vmemmap s q) = 0"
      by auto
    with put_frame [OF p1 this(1,2)] show ?thesis by (simp add: in_range_def)
  qed
  with Cons.IH [OF i1 _ _ rest] Cons.prems(2) show ?case by simp
qed

lemma refcounted_fold_proj:
  "free_area (fold (\<lambda>i s'. hyp_set_page_refcounted s' (p + i)) xs s) = free_area s"
  "range_start (fold (\<lambda>i s'. hyp_set_page_refcounted s' (p + i)) xs s) = range_start s"
  "range_end (fold (\<lambda>i s'. hyp_set_page_refcounted s' (p + i)) xs s) = range_end s"
  "max_order (fold (\<lambda>i s'. hyp_set_page_refcounted s' (p + i)) xs s) = max_order s"
  "order (vmemmap (fold (\<lambda>i s'. hyp_set_page_refcounted s' (p + i)) xs s) q) = order (vmemmap s q)"
  "refcount (vmemmap (fold (\<lambda>i s'. hyp_set_page_refcounted s' (p + i)) xs s) q)
     = (if \<exists>i\<in>set xs. q = p + i then 1 else refcount (vmemmap s q))"
  by (induction xs arbitrary: s; auto)+

lemma pool_max_order_le: "pool_max_order nr \<le> MAX_ORDER"
  by (simp add: pool_max_order_def)

lemma unat_pool_max_order: "unat (of_nat (pool_max_order nr) :: 8 word) = pool_max_order nr"
  using pool_max_order_le by (rule unat_small_of_nat)

lemma pool_bytes:
  assumes "unat (nr :: 32 word) < 2 ^ 20"
  shows "unat (push_bit 12 nr :: 32 word) = unat nr * 4096"
proof -
  have lt: "unat nr * 4096 < 2 ^ 32" using assms by simp
  have "unat (push_bit 12 nr :: 32 word) = unat (nr * 4096)"
    by (simp add: push_bit_eq_mult)
  also have "\<dots> = unat nr * 4096 mod 2 ^ 32"
    by (simp add: unat_word_ariths)
  also have "\<dots> = unat nr * 4096"
    using lt by (rule mod_less)
  finally show ?thesis .
qed

lemma init_empty_inv:
  assumes "init_empty_ok s nr"
  shows "\<exists>s'. hyp_pool_init_empty s nr = Inr s' \<and> pool_inv s'"
proof -
  let ?mo = "pool_max_order nr"
  let ?s' = "s\<lparr>max_order := of_nat ?mo, free_area := (\<lambda>k. if k \<le> ?mo then [] else free_area s k),
      range_start := 2 ^ 64 - 1, range_end := 0\<rparr>"
  have e: "hyp_pool_init_empty s nr = Inr ?s'"
    by (simp add: hyp_pool_init_empty_def uu_hyp_pool_init_def pool_max_order_def Let_def)
  have fa: "free_area ?s' k = []" for k
    using assms by (simp add: init_empty_ok_def)
  have nr: "\<not> in_range ?s' q" for q
    by (simp add: in_range_def)
  have "inv_lists ?s'"
    unfolding inv_lists_def fa using pool_max_order_le [of nr] by (simp add: unat_pool_max_order)
  moreover have "inv_blocks ?s'" unfolding inv_blocks_def using nr by blast
  moreover have "inv_buddies ?s'" unfolding inv_buddies_def fa by simp
  moreover have "inv_external ?s'" unfolding inv_external_def fa by simp
  ultimately show ?thesis using e by (simp add: pool_inv_def)
qed

lemma init_inv:
  assumes ok: "init_ok s pfn nr" and r: "hyp_pool_init s pfn nr res = Inr s'"
  shows "pool_inv s'"
proof -
  let ?mo = "pool_max_order nr"
  let ?s2 = "s\<lparr>max_order := of_nat ?mo, free_area := (\<lambda>k. if k \<le> ?mo then [] else free_area s k),
      range_start := push_bit 12 pfn, range_end := push_bit 12 pfn + unat nr * 4096\<rparr>"
  let ?s3 = "fold (\<lambda>i s'. hyp_set_page_refcounted s' (pfn + i)) [0..<unat nr] ?s2"
  let ?ps = "map (\<lambda>i. pfn + i) [unat res..<unat nr]"
  from ok have le: "init_empty_ok s nr" and sz: "unat nr < 2 ^ 20"
    and z: "\<And>i. i < unat nr \<Longrightarrow> order (vmemmap s (pfn + i)) = 0"
    by (simp_all add: init_ok_def)
  have d: "drop_bit 12 (push_bit 12 pfn) = pfn" by (simp add: drop_bit_push_bit)
  have e: "hyp_pool_init s pfn nr res = put_pages ?s3 ?ps"
    using pool_bytes [OF sz]
    by (simp add: hyp_pool_init_def uu_hyp_pool_init_def pool_max_order_def Let_def addr_defs d
        del: upt_Suc)
  have fa: "free_area ?s3 k = []" for k
    using le by (simp add: refcounted_fold_proj init_empty_ok_def)
  have ir: "in_range ?s3 q \<longleftrightarrow> pfn \<le> q \<and> q < pfn + unat nr" for q
    by (simp add: in_range_def refcounted_fold_proj addr_defs push_bit_eq_mult) arith
  have od: "order (vmemmap ?s3 q) = order (vmemmap s q)" for q
    by (simp add: refcounted_fold_proj)
  have rf: "refcount (vmemmap ?s3 (pfn + i)) = 1" if "i < unat nr" for i
    using that by (simp add: refcounted_fold_proj)
  have mo: "unat (max_order ?s3) = ?mo"
    by (simp add: refcounted_fold_proj unat_pool_max_order)
  have fr: "order (vmemmap s q) = 0 \<and> refcount (vmemmap ?s3 q) = 1" if "in_range ?s3 q" for q
  proof -
    from that have "pfn \<le> q" "q < pfn + unat nr" unfolding ir by simp_all
    then have "q - pfn < unat nr" "q = pfn + (q - pfn)" by arith+
    with z [of "q - pfn"] rf [of "q - pfn"] show ?thesis by simp
  qed
  have "inv_lists ?s3"
    unfolding inv_lists_def fa mo using pool_max_order_le [of nr] by simp
  moreover have "inv_blocks ?s3"
    unfolding inv_blocks_def
  proof (intro allI impI)
    fix q assume "in_range ?s3 q \<and> order (vmemmap ?s3 q) \<noteq> HYP_NO_ORDER"
    with fr [of q] have "order (vmemmap ?s3 q) = 0" unfolding od by simp
    then show "unat (order (vmemmap ?s3 q)) \<le> unat (max_order ?s3)
        \<and> 2 ^ unat (order (vmemmap ?s3 q)) dvd q
        \<and> (\<forall>t. q < t \<and> t < q + 2 ^ unat (order (vmemmap ?s3 q)) \<longrightarrow>
              in_range ?s3 t \<and> order (vmemmap ?s3 t) = HYP_NO_ORDER \<and> refcount (vmemmap ?s3 t) = 0)"
      by auto
  qed
  moreover have "inv_buddies ?s3" unfolding inv_buddies_def fa by simp
  moreover have "inv_external ?s3" unfolding inv_external_def fa by simp
  ultimately have i3: "pool_inv ?s3" by (simp add: pool_inv_def)
  have ds: "distinct ?ps" by (simp add: distinct_map inj_on_def)
  have "in_range ?s3 q \<and> refcount (vmemmap ?s3 q) \<noteq> 0 \<and> order (vmemmap ?s3 q) = 0"
    if "q \<in> set ?ps" for q
  proof -
    from that have "in_range ?s3 q" unfolding ir by auto
    with fr [OF this] show ?thesis unfolding od by simp
  qed
  then have "\<forall>q\<in>set ?ps. in_range ?s3 q \<and> refcount (vmemmap ?s3 q) \<noteq> 0 \<and> order (vmemmap ?s3 q) = 0"
    by blast
  from put_pages_inv [OF i3 ds this] r e show ?thesis by simp
qed

subsection \<open>The invariants of the free lists\<close>

lemma get_order_two_pages: "get_order 8192 = 1"
  by (simp add: get_order_def PAGE_SIZE_def ceil_log2.simps)

lemma two_nat: "Suc (Suc 0) = 2"
  by simp

lemma reserved_init:
  "(case hyp_pool_init boot_state 0 2 1 of
      Inl e \<Rightarrow> False
    | Inr s \<Rightarrow> (\<forall>k. free_area s k = (if k = 0 then [1] else []))
        \<and> range_start s = 0 \<and> range_end s = 8192 \<and> max_order s = 1
        \<and> (\<forall>q. order (vmemmap s q) = 0)
        \<and> (\<forall>q. refcount (vmemmap s q) = (if q = 0 then 1 else 0)))"
  by (simp add: init_simps get_order_two_pages eval_simps upt_rec two_nat)

lemma pool_max_order_two: "pool_max_order 2 = 1"
  by (simp add: pool_max_order_def PAGE_SHIFT_def get_order_two_pages MAX_ORDER_def)

lemma pool_max_order_eight: "pool_max_order 8 = 3"
  by (simp add: pool_max_order_def PAGE_SHIFT_def get_order_eight_pages MAX_ORDER_def)



subsection \<open>The code past the undefined shift keeps the pool well formed\<close>

lemma put_cont_eq:
  "uu_hyp_put_page_cont u s p =
     (if refcount (vmemmap s p) = 1 then
        (case uu_hyp_attach_page (set_refcount s p 0) p of
           Inl e \<Rightarrow> Inl e
         | Inr s2 \<Rightarrow>
             Inr (s2\<lparr>free_pages := free_pages s2
                    + (if unat (order (vmemmap s2 p)) < 31 then push_bit (unat (order (vmemmap s2 p))) 1
                       else u (unat (order (vmemmap s2 p))))\<rparr>))
      else Inr (set_refcount s p (refcount (vmemmap s p) - 1)))"
  by (simp add: uu_hyp_put_page_cont_def dec_eq shl_cont_def shl_int_def split: sum.splits)

lemma hyp_put_page_cont_eq:
  "hyp_put_page_cont u s addr =
     (if order (vmemmap s (drop_bit 12 addr)) > max_order s then Inl BUG
      else uu_hyp_put_page_cont u s (drop_bit 12 addr))"
  by (simp add: hyp_put_page_cont_def Let_def addr_defs)







lemma put_cont_frame:
  assumes a: "uu_hyp_put_page_cont u s p = Inr s'" and q: "q \<noteq> p" "refcount (vmemmap s q) \<noteq> 0"
  shows "order (vmemmap s' q) = order (vmemmap s q) \<and> refcount (vmemmap s' q) = refcount (vmemmap s q)
     \<and> range_start s' = range_start s \<and> range_end s' = range_end s"
proof (cases "refcount (vmemmap s p) = 1")
  case False
  with a q show ?thesis by (auto simp: put_cont_eq)
next
  case True
  with a obtain s2 where at: "uu_hyp_attach_page (set_refcount s p 0) p = Inr s2"
    and s': "s' = s2\<lparr>free_pages := free_pages s2
                    + (if unat (order (vmemmap s2 p)) < 31 then push_bit (unat (order (vmemmap s2 p))) 1
                       else u (unat (order (vmemmap s2 p))))\<rparr>"
    by (auto simp: put_cont_eq split: sum.splits)
  from attach_frame [OF at q(1)] q show ?thesis
    unfolding s' by simp
qed


lemma refcounted_fold_mem:
  "mem (fold (\<lambda>i s'. hyp_set_page_refcounted s' (p + i)) xs s) = mem s"
  by (induction xs arbitrary: s) simp_all

text \<open>The state that the initialiser hands to its puts.\<close>

lemma init_start:
  assumes ok: "init_ok s pfn nr"
  defines "s3 \<equiv> fold (\<lambda>i s'. hyp_set_page_refcounted s' (pfn + i)) [0..<unat nr]
      (s\<lparr>max_order := of_nat (pool_max_order nr),
         free_area := (\<lambda>k. if k \<le> pool_max_order nr then [] else free_area s k),
         range_start := push_bit 12 pfn, range_end := push_bit 12 pfn + unat nr * 4096\<rparr>)"
  shows "hyp_pool_init_cont u s pfn nr res
           = put_pages_cont u s3 (map (\<lambda>i. pfn + i) [unat res..<unat nr])"
    and "pool_inv s3" and "\<And>k. free_area s3 k = []"
    and "\<And>q. in_range s3 q \<Longrightarrow> refcount (vmemmap s3 q) = 1 \<and> order (vmemmap s3 q) = 0"
    and "\<And>q. q \<in> set (map (\<lambda>i. pfn + i) [unat res..<unat nr]) \<Longrightarrow> in_range s3 q"
    and "mem s3 = mem s"
proof -
  let ?mo = "pool_max_order nr"
  from ok have le: "init_empty_ok s nr" and sz: "unat nr < 2 ^ 20"
    and z: "\<And>i. i < unat nr \<Longrightarrow> order (vmemmap s (pfn + i)) = 0"
    by (simp_all add: init_ok_def)
  have d: "drop_bit 12 (push_bit 12 pfn) = pfn" by (simp add: drop_bit_push_bit)
  show "hyp_pool_init_cont u s pfn nr res
           = put_pages_cont u s3 (map (\<lambda>i. pfn + i) [unat res..<unat nr])"
    using pool_bytes [OF sz]
    by (simp add: hyp_pool_init_cont_def pool_max_order_def Let_def addr_defs d s3_def
        del: upt_Suc)
  show fa: "free_area s3 k = []" for k
    using le by (simp add: refcounted_fold_proj init_empty_ok_def s3_def)
  have ir: "in_range s3 q \<longleftrightarrow> pfn \<le> q \<and> q < pfn + unat nr" for q
    by (simp add: in_range_def refcounted_fold_proj addr_defs push_bit_eq_mult s3_def) arith
  have od: "order (vmemmap s3 q) = order (vmemmap s q)" for q
    by (simp add: refcounted_fold_proj s3_def)
  have rf: "refcount (vmemmap s3 (pfn + i)) = 1" if "i < unat nr" for i
    using that by (simp add: refcounted_fold_proj s3_def)
  have mo: "unat (max_order s3) = ?mo"
    by (simp add: refcounted_fold_proj unat_pool_max_order s3_def)
  show fr: "refcount (vmemmap s3 q) = 1 \<and> order (vmemmap s3 q) = 0" if "in_range s3 q" for q
  proof -
    from that have "pfn \<le> q" "q < pfn + unat nr" unfolding ir by simp_all
    then have "q - pfn < unat nr" "q = pfn + (q - pfn)" by arith+
    with z [of "q - pfn"] rf [of "q - pfn"] show ?thesis unfolding od by simp
  qed
  have "inv_lists s3"
    unfolding inv_lists_def fa mo using pool_max_order_le [of nr] by simp
  moreover have "inv_blocks s3"
    unfolding inv_blocks_def
  proof (intro allI impI)
    fix q assume "in_range s3 q \<and> order (vmemmap s3 q) \<noteq> HYP_NO_ORDER"
    with fr [of q] have "order (vmemmap s3 q) = 0" by simp
    then show "unat (order (vmemmap s3 q)) \<le> unat (max_order s3)
        \<and> 2 ^ unat (order (vmemmap s3 q)) dvd q
        \<and> (\<forall>t. q < t \<and> t < q + 2 ^ unat (order (vmemmap s3 q)) \<longrightarrow>
              in_range s3 t \<and> order (vmemmap s3 t) = HYP_NO_ORDER \<and> refcount (vmemmap s3 t) = 0)"
      by auto
  qed
  moreover have "inv_buddies s3" unfolding inv_buddies_def fa by simp
  moreover have "inv_external s3" unfolding inv_external_def fa by simp
  ultimately show "pool_inv s3" by (simp add: pool_inv_def)
  show "in_range s3 q" if "q \<in> set (map (\<lambda>i. pfn + i) [unat res..<unat nr])" for q
    using that unfolding ir by auto
  show "mem s3 = mem s"
    unfolding s3_def by (simp add: refcounted_fold_mem del: upt_Suc)
qed



lemma three_nat: "Suc 2 = 3"
  by simp

lemma four_init:
  "(case hyp_pool_init_cont (\<lambda>_. 0) boot_state 0 4 0 of
      Inl e \<Rightarrow> False
    | Inr s \<Rightarrow> (\<forall>k. free_area s k = (if k = 2 then [0] else []))
        \<and> range_start s = 0 \<and> range_end s = 16384 \<and> max_order s = 2
        \<and> order (vmemmap s 0) = 2 \<and> order (vmemmap s 1) = 255
        \<and> order (vmemmap s 2) = 255 \<and> order (vmemmap s 3) = 255
        \<and> (\<forall>q. refcount (vmemmap s q) = 0))"
  by (simp add: hyp_pool_init_cont_def PAGE_SHIFT_def hyp_pfn_to_phys_def hyp_phys_to_page_def
      get_order_four_pages put_cont_eq eval_simps upt_rec two_nat)




section \<open>The free groups are zeroed\<close>

subsection \<open>Bytes, frames and list nodes\<close>

lemma node_byte_frame: "node_byte t x \<Longrightarrow> hyp_virt_to_page x = t"
proof -
  assume "node_byte t x"
  then have "4096 * t \<le> x" "x < 4096 * Suc t"
    by (simp_all add: node_byte_def addr_defs push_bit_eq_mult)
  then have "x div 4096 = t" by (rule div_nat_eqI)
  then show ?thesis by (simp add: addr_defs drop_bit_eq_div)
qed

lemma node_in_group: "node_byte t x \<Longrightarrow> group_byte t k x"
  by (simp add: group_byte_def group_frame_def node_byte_frame)

lemma group_byte_iff:
  "group_byte p k x \<longleftrightarrow> hyp_page_to_virt p \<le> x \<and> x < hyp_page_to_virt p + 2 ^ k * PAGE_SIZE"
proof -
  have "p \<le> x div 4096 \<longleftrightarrow> p * 4096 \<le> x"
    by (simp add: less_eq_div_iff_mult_less_eq)
  moreover have "x div 4096 < p + 2 ^ k \<longleftrightarrow> x < (p + 2 ^ k) * 4096"
    by (simp add: div_less_iff_less_mult)
  ultimately show ?thesis
    by (simp add: group_byte_def group_frame_def addr_defs push_bit_eq_mult drop_bit_eq_div
        algebra_simps)
qed

lemma store_ptr_other: "\<not> (a \<le> x \<and> x < a + 8) \<Longrightarrow> store_ptr a v m x = m x"
  by (auto simp: store_ptr_def)

lemma store_next_other: "\<not> node_byte t x \<Longrightarrow> store_ptr (hyp_page_to_virt t) v m x = m x"
  by (rule store_ptr_other) (auto simp: node_byte_def)

lemma store_prev_other: "\<not> node_byte t x \<Longrightarrow> store_ptr (hyp_page_to_virt t + 8) v m x = m x"
  by (rule store_ptr_other) (auto simp: node_byte_def)

lemma unlink_mem_other:
  assumes o: "\<forall>t. t \<in> set (free_area s k) \<and> t \<noteq> b \<longrightarrow> \<not> node_byte t x"
    and d: "distinct (free_area s k)"
  shows "unlink_mem s b k m x = m x"
proof (cases "b \<in> set (free_area s k)")
  case False
  then show ?thesis by (simp add: unlink_mem_def Let_def)
next
  case True
  let ?l = "free_area s k"
  let ?pre = "takeWhile (\<lambda>x. x \<noteq> b) ?l"
  let ?post = "tl (dropWhile (\<lambda>x. x \<noteq> b) ?l)"
  have pre: "\<not> node_byte (last ?pre) x" if "?pre \<noteq> []"
  proof -
    from that have "last ?pre \<in> set ?pre" by simp
    then have "last ?pre \<in> set ?l \<and> last ?pre \<noteq> b"
      by (auto dest: set_takeWhileD)
    with o show ?thesis by blast
  qed
  have post: "\<not> node_byte (hd ?post) x" if "?post \<noteq> []"
  proof -
    from that have h: "hd ?post \<in> set ?post" by simp
    from True have "dropWhile (\<lambda>x. x \<noteq> b) ?l \<noteq> []" by (auto simp: dropWhile_eq_Nil_conv)
    moreover from this have "hd (dropWhile (\<lambda>x. x \<noteq> b) ?l) = b"
      using hd_dropWhile [of "\<lambda>x. x \<noteq> b" ?l] by simp
    ultimately have dw: "dropWhile (\<lambda>x. x \<noteq> b) ?l = b # ?post"
      by (cases "dropWhile (\<lambda>x. x \<noteq> b) ?l") simp_all
    have l: "?l = ?pre @ b # ?post"
      by (subst dw [symmetric]) simp
    have "distinct (?pre @ b # ?post)" using d l by simp
    with h have "hd ?post \<noteq> b" by auto
    moreover have "hd ?post \<in> set ?l" using h by (subst l) simp
    ultimately show ?thesis using o by blast
  qed
  show ?thesis
  proof (cases "?post = []")
    case p: True
    show ?thesis
    proof (cases "?pre = []")
      case True
      with p \<open>b \<in> set ?l\<close> show ?thesis by (simp add: unlink_mem_def Let_def)
    next
      case False
      with p \<open>b \<in> set ?l\<close> pre show ?thesis
        by (simp add: unlink_mem_def Let_def store_next_other)
    qed
  next
    case p: False
    show ?thesis
    proof (cases "?pre = []")
      case True
      with p \<open>b \<in> set ?l\<close> post show ?thesis
        by (simp add: unlink_mem_def Let_def store_prev_other)
    next
      case False
      with p \<open>b \<in> set ?l\<close> pre post show ?thesis
        by (simp add: unlink_mem_def Let_def store_prev_other store_next_other)
    qed
  qed
qed

lemma unlink_fold_other:
  assumes "\<forall>k t. t \<in> set (free_area s k) \<and> t \<noteq> b \<longrightarrow> \<not> node_byte t x"
    and "\<forall>k. distinct (free_area s k)"
  shows "fold (unlink_mem s b) ks m x = m x"
proof (induction ks arbitrary: m)
  case Nil
  show ?case by simp
next
  case (Cons k ks)
  have "unlink_mem s b k m x = m x"
    using assms by (intro unlink_mem_other) blast+
  with Cons.IH [of "unlink_mem s b k m"] show ?case by simp
qed

lemma remove_mem_node:
  "node_byte b x \<Longrightarrow> mem (page_remove_from_list s b) x = 0"
  by (simp add: page_remove_from_list_def Let_def memset_zero_def node_byte_def)

lemma remove_mem_other:
  assumes "\<forall>k t. t \<in> set (free_area s k) \<and> t \<noteq> b \<longrightarrow> \<not> node_byte t x"
    and "\<forall>k. distinct (free_area s k)" and "\<not> node_byte b x"
  shows "mem (page_remove_from_list s b) x = mem s x"
proof -
  have "fold (unlink_mem s b) [0..<Suc MAX_ORDER] (mem s) x = mem s x"
    using assms(1,2) by (rule unlink_fold_other)
  with assms(3) show ?thesis
    by (auto simp add: page_remove_from_list_def list_del_entry_def Let_def memset_zero_def
        node_byte_def simp del: upt_Suc)
qed

lemma add_mem_other:
  assumes "\<not> node_byte p x" and "\<forall>t \<in> set (free_area s k). \<not> node_byte t x"
  shows "mem (list_add_tail (INIT_LIST_HEAD_node s (hyp_page_to_virt p)) p k) x = mem s x"
proof (cases "free_area s k = []")
  case True
  with assms(1) show ?thesis
    by (simp add: list_add_tail_def INIT_LIST_HEAD_node_def Let_def store_next_other store_prev_other)
next
  case False
  then have "last (free_area s k) \<in> set (free_area s k)" by simp
  with assms(2) have "\<not> node_byte (last (free_area s k)) x" by blast
  with False assms(1) show ?thesis
    by (simp add: list_add_tail_def INIT_LIST_HEAD_node_def Let_def store_next_other store_prev_other)
qed


subsection \<open>Free groups do not overlap\<close>

lemma group_frame_self [simp]: "group_frame p k p"
  by (simp add: group_frame_def)

lemma node_group_frame: "node_byte t x \<Longrightarrow> group_byte q j x \<Longrightarrow> group_frame q j t"
  by (simp add: group_byte_def node_byte_frame)

lemma member_head:
  assumes "inv_lists s" "p \<in> set (free_area s k)"
  shows "unat (order (vmemmap s p)) = k" "order (vmemmap s p) \<noteq> HYP_NO_ORDER"
proof -
  from inv_listsD(3) [OF assms] inv_listsD(1) [OF assms(1)]
  show u: "unat (order (vmemmap s p)) = k" and "order (vmemmap s p) \<noteq> HYP_NO_ORDER"
    by (auto simp: HYP_NO_ORDER_def MAX_ORDER_def)
qed

lemma head_group_in_range:
  assumes "inv_blocks s" "in_range s p" "order (vmemmap s p) \<noteq> HYP_NO_ORDER"
    and "group_frame p (unat (order (vmemmap s p))) t"
  shows "in_range s t"
proof (cases "t = p")
  case True
  with assms(2) show ?thesis by simp
next
  case False
  with assms(4) inv_blocksD(3) [OF assms(1-3), of t] show ?thesis
    by (simp add: group_frame_def)
qed

text \<open>A head inside the range that is on no list shares no frame with a free group.\<close>

lemma head_apart:
  assumes inv: "pool_inv s" and eo: "ext_out s"
    and p: "in_range s p" "order (vmemmap s p) \<noteq> HYP_NO_ORDER" "\<forall>j. p \<notin> set (free_area s j)"
  shows "apart s p (unat (order (vmemmap s p)))"
  unfolding apart_def
proof (intro allI impI notI)
  fix j q t
  assume q: "q \<in> set (free_area s j)"
    and t: "group_frame p (unat (order (vmemmap s p))) t \<and> group_frame q j t"
  note il = pool_invD(1) [OF inv] and ib = pool_invD(2) [OF inv]
  note qh = member_head [OF il q]
  from p(3) q have ne: "p \<noteq> q" by auto
  from t have tr: "in_range s t" using head_group_in_range [OF ib p(1,2)] by simp
  show False
  proof (cases "in_range s q")
    case True
    from heads_disjoint [OF ib p(1,2) True qh(2) ne, of t] t qh(1) show False
      by (simp add: group_frame_def)
  next
    case False
    with eo q t tr show False unfolding ext_out_def by blast
  qed
qed

lemma members_apart:
  assumes inv: "pool_inv s" and eo: "ext_out s" and ea: "ext_apart s"
  shows "blocks_apart s"
  unfolding blocks_apart_def
proof (intro allI impI notI)
  fix k p j q t
  assume a: "p \<in> set (free_area s k) \<and> q \<in> set (free_area s j) \<and> p \<noteq> q"
    and t: "group_frame p k t \<and> group_frame q j t"
  note il = pool_invD(1) [OF inv] and ib = pool_invD(2) [OF inv]
  from a have pm: "p \<in> set (free_area s k)" and qm: "q \<in> set (free_area s j)" and ne: "p \<noteq> q"
    by simp_all
  note ph = member_head [OF il pm] and qh = member_head [OF il qm]
  consider "in_range s p" "in_range s q" | "in_range s p" "\<not> in_range s q"
    | "\<not> in_range s p" "in_range s q" | "\<not> in_range s p" "\<not> in_range s q"
    by blast
  then show False
  proof cases
    case 1
    from heads_disjoint [OF ib 1(1) ph(2) 1(2) qh(2) ne, of t] t ph(1) qh(1) show False
      by (simp add: group_frame_def)
  next
    case 2
    from t ph(1) have "in_range s t" using head_group_in_range [OF ib 2(1) ph(2), of t] by simp
    with eo qm 2(2) t show False unfolding ext_out_def by blast
  next
    case 3
    from t qh(1) have "in_range s t" using head_group_in_range [OF ib 3(2) qh(2), of t] by simp
    with eo pm 3(1) t show False unfolding ext_out_def by blast
  next
    case 4
    with ea pm qm ne t show False unfolding ext_apart_def by blast
  qed
qed

text \<open>The detached group of the coalescing loop shares no frame with a free group.\<close>

lemma detached_apart:
  assumes inv: "pool_inv s" and eo: "ext_out s" and det: "detached s p k"
  shows "apart s p k"
  unfolding apart_def
proof (intro allI impI notI)
  fix j q t
  assume q: "q \<in> set (free_area s j)" and t: "group_frame p k t \<and> group_frame q j t"
  note il = pool_invD(1) [OF inv] and ib = pool_invD(2) [OF inv]
  note qh = member_head [OF il q]
  have tr: "in_range s t"
    using t detachedD(1) [OF det] detachedD(6) [OF det, of t]
    by (cases "t = p") (auto simp: group_frame_def)
  show False
  proof (cases "in_range s q")
    case False
    with eo q t tr show False unfolding ext_out_def by blast
  next
    case True
    have qa: "2 ^ j dvd q" using inv_blocksD(2) [OF ib True qh(2)] qh(1) by simp
    have qp: "q \<noteq> p" using qh(2) detachedD(2) [OF det] by auto
    from t have t': "p \<le> t" "t < p + 2 ^ k" "q \<le> t" "t < q + 2 ^ j"
      by (simp_all add: group_frame_def)
    show False
    proof (cases "k \<le> j")
      case le: True
      from aligned_blocks_nested [OF detachedD(5) [OF det] qa le t'] have "q \<le> p" by simp
      with qp t' have "q < p \<and> p < q + 2 ^ unat (order (vmemmap s q))"
        unfolding qh(1) by simp
      with detachedD(8) [OF det True qh(2)] show False by simp
    next
      case False
      then have le: "j \<le> k" by simp
      from aligned_blocks_nested [OF qa detachedD(5) [OF det] le t'(3,4,1,2)]
      have "p \<le> q" "q + 2 ^ j \<le> p + 2 ^ k" by simp_all
      with qp have "p < q" "q < p + 2 ^ k"
        by (simp_all add: less_le_trans [of q "q + 2 ^ j"])
      from detachedD(6) [OF det this] qh(2) show False by simp
    qed
  qed
qed


subsection \<open>The bytes of the free groups\<close>

lemma zero_preds_proj [simp]:
  "mem_inv (set_order s p v) = mem_inv s"
  "mem_inv (set_refcount s p w) = mem_inv s"
  "mem_inv (hyp_set_page_refcounted s p) = mem_inv s"
  "mem_inv (s\<lparr>free_pages := f\<rparr>) = mem_inv s"
  "blocks_apart (set_order s p v) = blocks_apart s"
  "blocks_apart (set_refcount s p w) = blocks_apart s"
  "blocks_apart (s\<lparr>mem := m\<rparr>) = blocks_apart s"
  "apart (set_order s p v) = apart s"
  "apart (set_refcount s p w) = apart s"
  "apart (s\<lparr>mem := m\<rparr>) = apart s"
  "zeroed (set_order s p v) = zeroed s"
  "zeroed (set_refcount s p w) = zeroed s"
  "zeroed (hyp_set_page_refcounted s p) = zeroed s"
  "zeroed (s\<lparr>free_pages := f\<rparr>) = zeroed s"
  by (simp_all add: mem_inv_def blocks_apart_def apart_def zeroed_def fun_eq_iff)

lemma ext_preds_proj [simp]:
  "ext_out (set_order s p v) = ext_out s"
  "ext_out (set_refcount s p w) = ext_out s"
  "ext_out (hyp_set_page_refcounted s p) = ext_out s"
  "ext_out (s\<lparr>mem := m\<rparr>) = ext_out s"
  "ext_out (s\<lparr>free_pages := f\<rparr>) = ext_out s"
  "ext_apart (set_order s p v) = ext_apart s"
  "ext_apart (set_refcount s p w) = ext_apart s"
  "ext_apart (hyp_set_page_refcounted s p) = ext_apart s"
  "ext_apart (s\<lparr>mem := m\<rparr>) = ext_apart s"
  "ext_apart (s\<lparr>free_pages := f\<rparr>) = ext_apart s"
  by (simp_all add: ext_out_def ext_apart_def)

lemma ext_mono:
  assumes sub: "\<forall>k p. p \<in> set (free_area s' k) \<and> \<not> in_range s p \<longrightarrow> p \<in> set (free_area s k)"
    and r: "in_range s' = in_range s"
  shows "ext_out s \<Longrightarrow> ext_out s'" and "ext_apart s \<Longrightarrow> ext_apart s'"
proof -
  assume eo: "ext_out s"
  show "ext_out s'"
    unfolding ext_out_def r
  proof (intro allI impI)
    fix k p t assume a: "p \<in> set (free_area s' k) \<and> \<not> in_range s p \<and> group_frame p k t"
    with sub have "p \<in> set (free_area s k)" by blast
    with eo a show "\<not> in_range s t" unfolding ext_out_def by blast
  qed
next
  assume ea: "ext_apart s"
  show "ext_apart s'"
    unfolding ext_apart_def r
  proof (intro allI impI)
    fix k p j q t
    assume a: "p \<in> set (free_area s' k) \<and> q \<in> set (free_area s' j)
        \<and> \<not> in_range s p \<and> \<not> in_range s q \<and> p \<noteq> q"
    with sub have "p \<in> set (free_area s k)" "q \<in> set (free_area s j)" by blast+
    with ea a show "\<not> (group_frame p k t \<and> group_frame q j t)" unfolding ext_apart_def by blast
  qed
qed

lemma in_remove1D: "q \<in> set (remove1 b xs) \<Longrightarrow> q \<in> set xs"
  using notin_set_remove1 [of q xs b] by blast

lemma remove_member:
  "q \<in> set (free_area (page_remove_from_list s b) j) \<Longrightarrow> q \<in> set (free_area s j)"
  by (rule in_remove1D [of q b]) simp

lemma remove_ext:
  "ext_out s \<Longrightarrow> ext_out (page_remove_from_list s b)"
  "ext_apart s \<Longrightarrow> ext_apart (page_remove_from_list s b)"
  by (rule ext_mono; auto dest: in_remove1D)+

lemma remove_mem_inv:
  assumes mi: "mem_inv s" and ba: "blocks_apart s" and d: "\<forall>k. distinct (free_area s k)"
  shows "mem_inv (page_remove_from_list s b)"
    and "b \<in> set (free_area s k) \<Longrightarrow> zeroed (page_remove_from_list s b) b k"
    and "apart s p j \<Longrightarrow> zeroed s p j \<Longrightarrow> zeroed (page_remove_from_list s b) p j"
proof -
  let ?s' = "page_remove_from_list s b"
  have keep: "mem ?s' x = 0"
    if "mem s x = 0" "\<forall>k t. t \<in> set (free_area s k) \<and> t \<noteq> b \<longrightarrow> \<not> node_byte t x" for x
  proof (cases "node_byte b x")
    case True
    then show ?thesis by (rule remove_mem_node)
  next
    case False
    from remove_mem_other [OF that(2) d False] that(1) show ?thesis by simp
  qed
  show "mem_inv ?s'"
    unfolding mem_inv_def
  proof (intro allI impI)
    fix j q x
    assume a: "q \<in> set (free_area ?s' j) \<and> group_byte q j x \<and> \<not> node_byte q x"
    then have q: "q \<in> set (free_area s j)" by (intro remove_member [of q s b j]) simp
    with mi a have z: "mem s x = 0" unfolding mem_inv_def by blast
    have "\<not> node_byte t x" if "t \<in> set (free_area s k')" for t k'
    proof
      assume n: "node_byte t x"
      with a have "group_frame q j t" by (auto intro: node_group_frame)
      moreover have "group_frame t k' t" by simp
      ultimately have "t = q" using ba q that unfolding blocks_apart_def by blast
      with n a show False by simp
    qed
    then show "mem ?s' x = 0" using z by (intro keep) blast+
  qed
  show "zeroed ?s' b k" if b: "b \<in> set (free_area s k)"
    unfolding zeroed_def
  proof (intro allI impI)
    fix x assume g: "group_byte b k x"
    show "mem ?s' x = 0"
    proof (cases "node_byte b x")
      case True
      then show ?thesis by (rule remove_mem_node)
    next
      case False
      with mi b g have z: "mem s x = 0" unfolding mem_inv_def by blast
      have "\<not> node_byte t x" if "t \<in> set (free_area s k')" "t \<noteq> b" for t k'
      proof
        assume "node_byte t x"
        with g have "group_frame b k t" by (auto intro: node_group_frame)
        moreover have "group_frame t k' t" by simp
        ultimately show False using ba b that unfolding blocks_apart_def by blast
      qed
      then show ?thesis using z by (intro keep) blast+
    qed
  qed
  show "zeroed ?s' p j" if ap: "apart s p j" and z: "zeroed s p j"
    unfolding zeroed_def
  proof (intro allI impI)
    fix x assume g: "group_byte p j x"
    have "\<not> node_byte t x" if "t \<in> set (free_area s k')" for t k'
    proof
      assume "node_byte t x"
      with g have "group_frame p j t" by (auto intro: node_group_frame)
      moreover have "group_frame t k' t" by simp
      ultimately show False using ap that unfolding apart_def by blast
    qed
    moreover from z g have "mem s x = 0" unfolding zeroed_def by blast
    ultimately show "mem ?s' x = 0" by (intro keep) blast+
  qed
qed

lemma add_mem_inv:
  assumes mi: "mem_inv s" and ba: "blocks_apart s" and ap: "apart s p k"
    and z: "\<forall>x. group_byte p k x \<and> \<not> node_byte p x \<longrightarrow> mem s x = 0"
  shows "mem_inv (list_add_tail (INIT_LIST_HEAD_node s (hyp_page_to_virt p)) p k)"
    and "apart s q j \<Longrightarrow> \<forall>t. \<not> (group_frame q j t \<and> group_frame p k t) \<Longrightarrow> zeroed s q j \<Longrightarrow>
         zeroed (list_add_tail (INIT_LIST_HEAD_node s (hyp_page_to_virt p)) p k) q j"
proof -
  let ?s' = "list_add_tail (INIT_LIST_HEAD_node s (hyp_page_to_virt p)) p k"
  show "mem_inv ?s'"
    unfolding mem_inv_def
  proof (intro allI impI)
    fix j q x
    assume a: "q \<in> set (free_area ?s' j) \<and> group_byte q j x \<and> \<not> node_byte q x"
    then consider "q \<in> set (free_area s j)" | "q = p" "j = k" by (auto split: if_splits)
    then show "mem ?s' x = 0"
    proof cases
      case 1
      with mi a have m: "mem s x = 0" unfolding mem_inv_def by blast
      have "\<not> node_byte p x"
      proof
        assume "node_byte p x"
        with a have "group_frame q j p" by (auto intro: node_group_frame)
        moreover have "group_frame p k p" by simp
        ultimately show False using ap 1 unfolding apart_def by blast
      qed
      moreover have "\<forall>t\<in>set (free_area s k). \<not> node_byte t x"
      proof (intro ballI notI)
        fix t assume t: "t \<in> set (free_area s k)" and n: "node_byte t x"
        with a have "group_frame q j t" by (auto intro: node_group_frame)
        moreover have "group_frame t k t" by simp
        ultimately have "t = q" using ba 1 t unfolding blocks_apart_def by blast
        with n a show False by simp
      qed
      ultimately show ?thesis using m by (simp add: add_mem_other)
    next
      case 2
      with z a have m: "mem s x = 0" by blast
      have "\<forall>t\<in>set (free_area s k). \<not> node_byte t x"
      proof (intro ballI notI)
        fix t assume t: "t \<in> set (free_area s k)" and n: "node_byte t x"
        with a 2 have "group_frame p k t" by (auto intro: node_group_frame)
        moreover have "group_frame t k t" by simp
        ultimately show False using ap t unfolding apart_def by blast
      qed
      with a 2 m show ?thesis by (simp add: add_mem_other)
    qed
  qed
  show "zeroed ?s' q j"
    if aq: "apart s q j" and dj: "\<forall>t. \<not> (group_frame q j t \<and> group_frame p k t)" and zq: "zeroed s q j"
    unfolding zeroed_def
  proof (intro allI impI)
    fix x assume g: "group_byte q j x"
    with zq have m: "mem s x = 0" unfolding zeroed_def by blast
    have "\<not> node_byte p x"
    proof
      assume "node_byte p x"
      with g have "group_frame q j p" by (auto intro: node_group_frame)
      with dj show False by auto
    qed
    moreover have "\<forall>t\<in>set (free_area s k). \<not> node_byte t x"
    proof (intro ballI notI)
      fix t assume t: "t \<in> set (free_area s k)" and n: "node_byte t x"
      with g have "group_frame q j t" by (auto intro: node_group_frame)
      moreover have "group_frame t k t" by simp
      ultimately show False using aq t unfolding apart_def by blast
    qed
    ultimately show "mem ?s' x = 0" using m by (simp add: add_mem_other)
  qed
qed


subsection \<open>Coalescing keeps the free groups zeroed\<close>

lemma zero_invD:
  assumes "zero_inv s"
  shows "pool_inv s" "inv_free s" "mem_inv s" "ext_out s" "ext_apart s"
  using assms unfolding zero_inv_def by blast+

lemma coalescingD:
  assumes "coalescing s p k"
  shows "pool_inv s" "detached s p k" "inv_free s" "mem_inv s" "ext_out s" "ext_apart s" "zeroed s p k"
  using assms unfolding coalescing_def by blast+

lemma inv_freeD:
  "inv_free s \<Longrightarrow> in_range s p \<Longrightarrow> order (vmemmap s p) \<noteq> HYP_NO_ORDER \<Longrightarrow>
   refcount (vmemmap s p) = 0 \<Longrightarrow> p \<in> set (free_area s (unat (order (vmemmap s p))))"
  unfolding inv_free_def by blast

lemma merged_group:
  assumes "max p b = min p b + 2 ^ k"
  shows "group_frame (min p b) (Suc k) t \<longleftrightarrow> group_frame p k t \<or> group_frame b k t"
proof -
  have "group_frame (min p b) (Suc k) t \<longleftrightarrow> group_frame (min p b) k t \<or> group_frame (max p b) k t"
    unfolding assms by (auto simp: group_frame_def)
  also have "\<dots> \<longleftrightarrow> group_frame p k t \<or> group_frame b k t"
    by (cases "p \<le> b") (auto simp: min_def max_def)
  finally show ?thesis .
qed

lemma coalesce_step_zero:
  assumes c: "coalescing s p (unat ord)"
    and g: "unat ord + 1 \<le> unat (max_order s)"
    and av: "uu_find_buddy_avail s p ord = Some b"
  shows "coalescing (set_order (page_remove_from_list s b) b HYP_NO_ORDER) (min p b) (unat (ord + 1))"
proof -
  let ?k = "unat ord"
  let ?r = "page_remove_from_list s b"
  let ?s' = "set_order ?r b HYP_NO_ORDER"
  note inv = coalescingD(1) [OF c] and det = coalescingD(2) [OF c] and fr = coalescingD(3) [OF c]
    and mi = coalescingD(4) [OF c] and eo = coalescingD(5) [OF c] and ea = coalescingD(6) [OF c]
    and z = coalescingD(7) [OF c]
  note il = pool_invD(1) [OF inv]
  from coalesce_step_inv [OF inv det g av]
  have 1: "pool_inv ?s'" and 2: "detached ?s' (min p b) (unat (ord + 1))" by simp_all
  from av have b: "b = p XOR 2 ^ ?k" and br: "in_range s b" and bo: "order (vmemmap s b) = ord"
    and bc: "refcount (vmemmap s b) = 0"
    unfolding avail_Some_iff by blast+
  have oh: "ord \<noteq> HYP_NO_ORDER"
    using g inv_listsD(1) [OF il] by (intro small_order_is_head) simp
  have u1: "unat (ord + 1) = Suc ?k"
    using unat_succ_guard [OF g] by simp
  have bm: "b \<in> set (free_area s ?k)"
    using inv_freeD [OF fr br] bo oh bc by simp
  note ba = members_apart [OF inv eo ea]
  note ap = detached_apart [OF inv eo det]
  have d: "\<forall>k. distinct (free_area s k)" using inv_listsD(2) [OF il] by blast
  note rm = remove_mem_inv [OF mi ba d, where b = b]
  have 3: "inv_free ?s'"
    unfolding inv_free_def
  proof (intro allI impI)
    fix q
    assume a: "in_range ?s' q \<and> order (vmemmap ?s' q) \<noteq> HYP_NO_ORDER \<and> refcount (vmemmap ?s' q) = 0"
    then have qb: "q \<noteq> b" by auto
    with a have "q \<in> set (free_area s (unat (order (vmemmap s q))))"
      by (intro inv_freeD [OF fr]) simp_all
    with qb show "q \<in> set (free_area ?s' (unat (order (vmemmap ?s' q))))" by simp
  qed
  have 4: "mem_inv ?s'" using rm(1) by simp
  have 5: "ext_out ?s'" "ext_apart ?s'" using remove_ext [of s b] eo ea by simp_all
  have hi: "max p b = min p b + 2 ^ ?k"
    using aligned_buddy(3) [OF detachedD(5) [OF det]] b by simp
  have zp: "zeroed ?r p ?k" using rm(3) [OF ap z] .
  have zb: "zeroed ?r b ?k" using rm(2) [OF bm] .
  have 6: "zeroed ?s' (min p b) (unat (ord + 1))"
    using zp zb unfolding u1 zeroed_def group_byte_def merged_group [OF hi] by auto
  from 1 2 3 4 5 6 show ?thesis by (simp add: coalescing_def)
qed

lemma coalesce_zero:
  "coalescing s p (unat ord) \<Longrightarrow>
   (case coalesce s p ord of (s', p', ord') \<Rightarrow> coalescing s' p' (unat ord')
      \<and> (unat ord' + 1 \<le> unat (max_order s') \<longrightarrow> uu_find_buddy_avail s' p' ord' = None))"
proof (induction s p ord rule: coalesce.induct)
  case (1 s p ord)
  show ?case
  proof (cases "unat ord + 1 \<le> unat (max_order s)")
    case False
    with "1.prems" show ?thesis by (subst coalesce.simps) simp
  next
    case True
    show ?thesis
    proof (cases "uu_find_buddy_avail s p ord")
      case None
      with True "1.prems" show ?thesis by (subst coalesce.simps) simp
    next
      case (Some b)
      from coalesce_step_zero [OF "1.prems" True Some]
      have "coalescing (set_order (page_remove_from_list s b) b HYP_NO_ORDER) (min p b) (unat (ord + 1))" .
      from "1.IH" [OF True Some this] True Some show ?thesis
        by (subst coalesce.simps) simp
    qed
  qed
qed

lemma coalesce_covers:
  "coalescing s p (unat ord) \<Longrightarrow>
   (case coalesce s p ord of (s', p', ord') \<Rightarrow>
      (\<forall>t. group_frame p (unat ord) t \<longrightarrow> group_frame p' (unat ord') t))"
proof (induction s p ord rule: coalesce.induct)
  case (1 s p ord)
  show ?case
  proof (cases "unat ord + 1 \<le> unat (max_order s)")
    case False
    then show ?thesis by (subst coalesce.simps) simp
  next
    case True
    show ?thesis
    proof (cases "uu_find_buddy_avail s p ord")
      case None
      with True show ?thesis by (subst coalesce.simps) simp
    next
      case (Some b)
      let ?s1 = "set_order (page_remove_from_list s b) b HYP_NO_ORDER"
      note c1 = coalesce_step_zero [OF "1.prems" True Some]
      from Some have b: "b = p XOR 2 ^ unat ord" unfolding avail_Some_iff by blast
      have hi: "max p b = min p b + 2 ^ unat ord"
        using aligned_buddy(3) [OF detachedD(5) [OF coalescingD(2) [OF "1.prems"]]] b by simp
      have u1: "unat (ord + 1) = Suc (unat ord)"
        using unat_succ_guard [OF True] by simp
      obtain s' p' ord' where c: "coalesce ?s1 (min p b) (ord + 1) = (s', p', ord')"
        by (cases "coalesce ?s1 (min p b) (ord + 1)") auto
      from "1.IH" [OF True Some c1] c
      have ih: "\<And>t. group_frame (min p b) (Suc (unat ord)) t \<Longrightarrow> group_frame p' (unat ord') t"
        unfolding u1 by simp
      have "group_frame p' (unat ord') t" if "group_frame p (unat ord) t" for t
        using ih [of t] that unfolding merged_group [OF hi] by simp
      moreover have "coalesce s p ord = (s', p', ord')"
        using True Some c by (subst coalesce.simps) simp
      ultimately show ?thesis by simp
    qed
  qed
qed

lemma attach_insert_zero:
  assumes c: "coalescing s p (unat ord)"
    and n: "unat ord + 1 \<le> unat (max_order s) \<longrightarrow> uu_find_buddy_avail s p ord = None"
  shows "\<exists>s'. page_add_to_list (set_order s p ord) p (unat ord) = Inr s' \<and> zero_inv s'
    \<and> p \<in> set (free_area s' (unat ord))"
proof -
  let ?k = "unat ord"
  let ?t = "set_order s p ord"
  let ?s' = "list_add_tail (INIT_LIST_HEAD_node ?t (hyp_page_to_virt p)) p ?k"
  note inv = coalescingD(1) [OF c] and det = coalescingD(2) [OF c] and fr = coalescingD(3) [OF c]
    and mi = coalescingD(4) [OF c] and eo = coalescingD(5) [OF c] and ea = coalescingD(6) [OF c]
    and z = coalescingD(7) [OF c]
  note il = pool_invD(1) [OF inv]
  from attach_insert_inv [OF inv det n] obtain s' where
    a: "page_add_to_list ?t p ?k = Inr s'" and 1: "pool_inv s'"
    by blast
  then have s': "s' = ?s'" by (auto simp: page_add_to_list_def split: if_splits)
  note ba = members_apart [OF inv eo ea]
  note ap = detached_apart [OF inv eo det]
  note pr = detachedD(1) [OF det]
  have 2: "inv_free ?s'"
    unfolding inv_free_def
  proof (intro allI impI)
    fix q
    assume a: "in_range ?s' q \<and> order (vmemmap ?s' q) \<noteq> HYP_NO_ORDER \<and> refcount (vmemmap ?s' q) = 0"
    show "q \<in> set (free_area ?s' (unat (order (vmemmap ?s' q))))"
    proof (cases "q = p")
      case True
      then show ?thesis by simp
    next
      case False
      with a have "q \<in> set (free_area s (unat (order (vmemmap s q))))"
        by (intro inv_freeD [OF fr]) simp_all
      with False show ?thesis by auto
    qed
  qed
  have 3: "mem_inv ?s'"
    using add_mem_inv(1) [of ?t p ?k] mi ba ap z by (simp add: zeroed_def)
  have sub: "\<forall>j q. q \<in> set (free_area ?s' j) \<and> \<not> in_range s q \<longrightarrow> q \<in> set (free_area s j)"
    using pr by (auto split: if_splits)
  have 4: "ext_out ?s'" "ext_apart ?s'"
    using ext_mono [of ?s' s, OF sub] eo ea by simp_all
  have 5: "p \<in> set (free_area ?s' ?k)" by simp
  from a 1 2 3 4 5 show ?thesis unfolding s' by (simp add: zero_inv_def)
qed


subsection \<open>Releasing a page keeps the free groups zeroed\<close>

lemma inv_free_proj [simp]:
  "inv_free (s\<lparr>mem := m\<rparr>) = inv_free s"
  "inv_free (s\<lparr>free_pages := f\<rparr>) = inv_free s"
  by (simp_all add: inv_free_def)

lemma zero_inv_free_pages [simp]: "zero_inv (s\<lparr>free_pages := f\<rparr>) = zero_inv s"
  by (simp add: zero_inv_def)

lemma mem_inv_memset: "mem_inv s \<Longrightarrow> mem_inv (s\<lparr>mem := memset_zero a n (mem s)\<rparr>)"
  unfolding mem_inv_def by (simp add: memset_zero_def)

lemma memset_group:
  "group_byte p k x \<Longrightarrow> memset_zero (hyp_page_to_virt p) (push_bit k PAGE_SIZE) m x = 0"
  by (simp add: group_byte_iff memset_zero_def push_bit_eq_mult mult.commute)

lemma attach_start_zero:
  assumes zi: "zero_inv s" and rc: "refcount (vmemmap s p) \<noteq> 0" and r: "in_range s p"
    and h: "order (vmemmap s p) \<noteq> HYP_NO_ORDER"
  shows "coalescing (set_order ((set_refcount s p 0)\<lparr>mem := memset_zero (hyp_page_to_virt p)
           (push_bit (unat (order (vmemmap s p))) PAGE_SIZE) (mem s)\<rparr>) p HYP_NO_ORDER) p
         (unat (order (vmemmap s p)))"
proof -
  let ?k = "unat (order (vmemmap s p))"
  let ?m = "memset_zero (hyp_page_to_virt p) (push_bit ?k PAGE_SIZE) (mem s)"
  let ?t = "set_order ((set_refcount s p 0)\<lparr>mem := ?m\<rparr>) p HYP_NO_ORDER"
  note inv = zero_invD(1) [OF zi] and fr = zero_invD(2) [OF zi] and mi = zero_invD(3) [OF zi]
    and eo = zero_invD(4) [OF zi] and ea = zero_invD(5) [OF zi]
  from attach_start [OF inv rc r h, of ?m]
  have 1: "pool_inv ?t" "detached ?t p ?k" by simp_all
  have 2: "inv_free ?t"
    unfolding inv_free_def
  proof (intro allI impI)
    fix q
    assume a: "in_range ?t q \<and> order (vmemmap ?t q) \<noteq> HYP_NO_ORDER \<and> refcount (vmemmap ?t q) = 0"
    then have "q \<noteq> p" by auto
    with a have "q \<in> set (free_area s (unat (order (vmemmap s q))))"
      by (intro inv_freeD [OF fr]) simp_all
    with \<open>q \<noteq> p\<close> show "q \<in> set (free_area ?t (unat (order (vmemmap ?t q))))" by simp
  qed
  have "mem_inv ((set_refcount s p 0)\<lparr>mem := memset_zero (hyp_page_to_virt p)
      (push_bit ?k PAGE_SIZE) (mem (set_refcount s p 0))\<rparr>)"
    using mi by (intro mem_inv_memset) simp
  then have 3: "mem_inv ?t" by simp
  have 4: "ext_out ?t" "ext_apart ?t" using eo ea by simp_all
  have 5: "zeroed ?t p ?k"
    unfolding zeroed_def by (simp add: memset_group)
  from 1 2 3 4 5 show ?thesis by (simp add: coalescing_def)
qed

lemma attach_in_range_zero:
  assumes zi: "zero_inv s" and rc: "refcount (vmemmap s p) \<noteq> 0" and r: "in_range s p"
    and h: "order (vmemmap s p) \<noteq> HYP_NO_ORDER"
  shows "\<exists>s'. uu_hyp_attach_page (set_refcount s p 0) p = Inr s' \<and> zero_inv s'
    \<and> (\<exists>j q. q \<in> set (free_area s' j)
          \<and> (\<forall>t. group_frame p (unat (order (vmemmap s p))) t \<longrightarrow> group_frame q j t))"
proof -
  let ?ord = "order (vmemmap s p)"
  let ?m = "memset_zero (hyp_page_to_virt p) (push_bit (unat ?ord) PAGE_SIZE) (mem s)"
  let ?t = "set_order ((set_refcount s p 0)\<lparr>mem := ?m\<rparr>) p HYP_NO_ORDER"
  note c0 = attach_start_zero [OF zi rc r h]
  obtain s3 p' ord' where c: "coalesce ?t p ?ord = (s3, p', ord')"
    by (cases "coalesce ?t p ?ord") auto
  with coalesce_zero [OF c0] have "coalescing s3 p' (unat ord')"
    "unat ord' + 1 \<le> unat (max_order s3) \<longrightarrow> uu_find_buddy_avail s3 p' ord' = None"
    by simp_all
  from attach_insert_zero [OF this] obtain s' where
    ad: "page_add_to_list (set_order s3 p' ord') p' (unat ord') = Inr s'" and zs: "zero_inv s'"
    and pm: "p' \<in> set (free_area s' (unat ord'))"
    by blast
  have ir: "\<not> (push_bit 12 p < range_start s \<or> range_end s \<le> push_bit 12 p)"
    using r by (simp add: in_range_def addr_defs not_le)
  from coalesce_covers [OF c0] c
  have cv: "\<forall>t. group_frame p (unat ?ord) t \<longrightarrow> group_frame p' (unat ord') t" by simp
  have "uu_hyp_attach_page (set_refcount s p 0) p = Inr s'"
    using c ad ir by (simp add: attach_eq Let_def)
  with zs pm cv show ?thesis by blast
qed

lemma attach_external_zero:
  assumes zi: "zero_inv s" and rc: "refcount (vmemmap s p) \<noteq> 0" and r: "\<not> in_range s p"
    and k: "order (vmemmap s p) \<le> max_order s"
    and ex: "\<forall>j. j < unat (order (vmemmap s p)) \<longrightarrow> uu_find_buddy_nocheck s p (of_nat j) = None"
    and pa: "put_apart s p"
  shows "\<exists>s'. uu_hyp_attach_page (set_refcount s p 0) p = Inr s' \<and> zero_inv s'
    \<and> (\<exists>j q. q \<in> set (free_area s' j)
          \<and> (\<forall>t. group_frame p (unat (order (vmemmap s p))) t \<longrightarrow> group_frame q j t))"
proof -
  let ?ord = "order (vmemmap s p)"
  let ?k = "unat ?ord"
  let ?m = "memset_zero (hyp_page_to_virt p) (push_bit ?k PAGE_SIZE) (mem s)"
  let ?t = "set_order ((set_refcount s p 0)\<lparr>mem := ?m\<rparr>) p ?ord"
  let ?s' = "list_add_tail (INIT_LIST_HEAD_node ?t (hyp_page_to_virt p)) p ?k"
  note inv = zero_invD(1) [OF zi] and fr = zero_invD(2) [OF zi] and mi = zero_invD(3) [OF zi]
    and eo = zero_invD(4) [OF zi] and ea = zero_invD(5) [OF zi]
  note il = pool_invD(1) [OF inv]
  from attach_external_inv [OF inv rc r k ex] obtain s' where
    a: "uu_hyp_attach_page (set_refcount s p 0) p = Inr s'" and 1: "pool_inv s'"
    by blast
  have out: "push_bit 12 p < range_start s \<or> range_end s \<le> push_bit 12 p"
    using r by (auto simp: in_range_def addr_defs)
  from a out have s': "s' = ?s'"
    by (auto simp: attach_eq Let_def page_add_to_list_def split: if_splits)
  from pa r have gp: "\<And>t. group_frame p ?k t \<Longrightarrow> \<not> in_range s t"
    and gm: "\<And>t j q. group_frame p ?k t \<Longrightarrow> q \<in> set (free_area s j) \<Longrightarrow> \<not> group_frame q j t"
    unfolding put_apart_def by blast+
  have ap: "apart s p ?k"
    unfolding apart_def using gm by blast
  have pl: "p \<notin> set (free_area s j)" for j
    using gm [where t = p and j = j and q = p] by auto
  have 2: "inv_free ?s'"
    unfolding inv_free_def
  proof (intro allI impI)
    fix q
    assume a: "in_range ?s' q \<and> order (vmemmap ?s' q) \<noteq> HYP_NO_ORDER \<and> refcount (vmemmap ?s' q) = 0"
    with r have "q \<noteq> p" by auto
    with a have "q \<in> set (free_area s (unat (order (vmemmap s q))))"
      by (intro inv_freeD [OF fr]) simp_all
    with \<open>q \<noteq> p\<close> show "q \<in> set (free_area ?s' (unat (order (vmemmap ?s' q))))" by auto
  qed
  have "mem_inv ((set_refcount s p 0)\<lparr>mem := memset_zero (hyp_page_to_virt p)
      (push_bit ?k PAGE_SIZE) (mem (set_refcount s p 0))\<rparr>)"
    using mi by (intro mem_inv_memset) simp
  then have mt: "mem_inv ?t" by simp
  have 3: "mem_inv ?s'"
    using add_mem_inv(1) [of ?t p ?k] mt members_apart [OF inv eo ea] ap
    by (simp add: memset_group)
  have 4: "ext_out ?s'"
    unfolding ext_out_def
  proof (intro allI impI)
    fix j q t
    assume a: "q \<in> set (free_area ?s' j) \<and> \<not> in_range ?s' q \<and> group_frame q j t"
    then consider "q \<in> set (free_area s j)" | "q = p" "j = ?k" by (auto split: if_splits)
    then have "\<not> in_range s t"
    proof cases
      case 1
      with eo a show ?thesis unfolding ext_out_def by simp blast
    next
      case 2
      with a gp show ?thesis by simp
    qed
    then show "\<not> in_range ?s' t" by simp
  qed
  have 5: "ext_apart ?s'"
    unfolding ext_apart_def
  proof (intro allI impI)
    fix i a j q t
    assume h: "a \<in> set (free_area ?s' i) \<and> q \<in> set (free_area ?s' j)
        \<and> \<not> in_range ?s' a \<and> \<not> in_range ?s' q \<and> a \<noteq> q"
    then have am: "a \<in> set (free_area s i) \<or> (a = p \<and> i = ?k)"
      and qm: "q \<in> set (free_area s j) \<or> (q = p \<and> j = ?k)"
      by (auto split: if_splits)
    show "\<not> (group_frame a i t \<and> group_frame q j t)"
    proof (cases "a = p")
      case True
      with h pl am qm have "i = ?k" "q \<in> set (free_area s j)" by auto
      with True gm [where t = t and q = q and j = j] show ?thesis by auto
    next
      case False
      with am have am': "a \<in> set (free_area s i)" by simp
      show ?thesis
      proof (cases "q = p")
        case True
        with pl qm have "j = ?k" by auto
        with True am' gm [where t = t and q = a and j = i] show ?thesis by auto
      next
        case False
        with qm have "q \<in> set (free_area s j)" by simp
        with ea am' h show ?thesis unfolding ext_apart_def by simp blast
      qed
    qed
  qed
  have 6: "p \<in> set (free_area ?s' ?k)" by simp
  then have "\<exists>j q. q \<in> set (free_area ?s' j) \<and> (\<forall>t. group_frame p ?k t \<longrightarrow> group_frame q j t)"
    by blast
  with a 1 2 3 4 5 show ?thesis unfolding s' by (simp add: zero_inv_def)
qed

lemma held_refcount_zero:
  assumes zi: "zero_inv s" and rc: "refcount (vmemmap s p) \<noteq> 0" and v: "v \<noteq> 0"
  shows "zero_inv (set_refcount s p v)"
proof -
  note inv = zero_invD(1) [OF zi] and fr = zero_invD(2) [OF zi]
  have "inv_free (set_refcount s p v)"
    unfolding inv_free_def
  proof (intro allI impI)
    fix q
    assume a: "in_range (set_refcount s p v) q \<and> order (vmemmap (set_refcount s p v) q) \<noteq> HYP_NO_ORDER
        \<and> refcount (vmemmap (set_refcount s p v) q) = 0"
    with v have "q \<noteq> p" by auto
    with a have "q \<in> set (free_area s (unat (order (vmemmap s q))))"
      by (intro inv_freeD [OF fr]) simp_all
    then show "q \<in> set (free_area (set_refcount s p v)
        (unat (order (vmemmap (set_refcount s p v) q))))" by simp
  qed
  with held_refcount_inv [OF inv rc, of v] zero_invD(3-5) [OF zi] show ?thesis
    by (simp add: zero_inv_def)
qed

lemma get_zero:
  assumes "zero_inv s" "refcount (vmemmap s (hyp_virt_to_page addr)) \<noteq> 0"
    and "refcount (vmemmap s (hyp_virt_to_page addr)) + 1 \<noteq> 0"
  shows "zero_inv (hyp_get_page s addr)"
  unfolding hyp_get_page_def hyp_page_ref_inc_def using assms by (rule held_refcount_zero)


subsection \<open>Allocation hands out zeroed groups\<close>

lemma splittingD:
  assumes "splitting s p"
  shows "pool_inv s" "in_range s p" "order (vmemmap s p) \<noteq> HYP_NO_ORDER"
    "\<forall>j. p \<notin> set (free_area s j)"
    "\<And>q. q \<noteq> p \<Longrightarrow> in_range s q \<Longrightarrow> order (vmemmap s q) \<noteq> HYP_NO_ORDER \<Longrightarrow>
       refcount (vmemmap s q) = 0 \<Longrightarrow> q \<in> set (free_area s (unat (order (vmemmap s q))))"
    "mem_inv s" "ext_out s" "ext_apart s" "zeroed s p (unat (order (vmemmap s p)))"
  using assms unfolding splitting_def by blast+

lemma apart_sub:
  "apart s p k \<Longrightarrow> \<forall>t. group_frame q j t \<longrightarrow> group_frame p k t \<Longrightarrow> apart s q j"
  unfolding apart_def by blast

lemma zeroed_sub:
  "zeroed s p k \<Longrightarrow> \<forall>t. group_frame q j t \<longrightarrow> group_frame p k t \<Longrightarrow> zeroed s q j"
  unfolding zeroed_def group_byte_def by blast

lemma split_buddy:
  assumes ib: "inv_blocks s" and pr: "in_range s p" and ph: "order (vmemmap s p) \<noteq> HYP_NO_ORDER"
    and gt: "ord < order (vmemmap s p)"
    and nc: "uu_find_buddy_nocheck s p (order (vmemmap s p) - 1) = Some b"
  shows "unat (order (vmemmap s p) - 1) = unat (order (vmemmap s p)) - 1"
    and "Suc (unat (order (vmemmap s p)) - 1) = unat (order (vmemmap s p))"
    and "b = p + 2 ^ (unat (order (vmemmap s p)) - 1)" and "in_range s b"
proof -
  let ?o = "order (vmemmap s p)"
  let ?k = "unat ?o"
  note pb = inv_blocksD [OF ib pr ph]
  from gt have k1: "1 \<le> ?k" by (auto simp: word_less_nat_alt)
  then have nz: "?o \<noteq> 0" by auto
  show u: "unat (?o - 1) = ?k - 1" using nz by (rule unat_minus_one)
  show sk: "Suc (?k - 1) = ?k" using k1 by simp
  have d1: "2 ^ (?k - 1) dvd p"
    using pb(2) by (rule dvd_trans [rotated]) (simp add: le_imp_power_dvd)
  from nc have bx: "b = p XOR 2 ^ (?k - 1)" and br: "in_range s b"
    unfolding nocheck_Some_iff u by blast+
  show "b = p + 2 ^ (?k - 1)"
    using xor_pow_aligned [OF d1] pb(2) sk bx by simp
  show "in_range s b" by (rule br)
qed

lemma halves:
  assumes "Suc j = k"
  shows "group_frame p j t \<Longrightarrow> group_frame p k t"
    and "group_frame (p + 2 ^ j) j t \<Longrightarrow> group_frame p k t"
    and "\<not> (group_frame p j t \<and> group_frame (p + 2 ^ j) j t)"
  using assms by (auto simp: group_frame_def)

lemma extract_step_zero:
  assumes sp: "splitting s p" and gt: "ord < order (vmemmap s p)"
    and nc: "uu_find_buddy_nocheck s p (order (vmemmap s p) - 1) = Some b"
  shows "\<exists>s3. page_add_to_list (set_order (set_order s p (order (vmemmap s p) - 1)) b
                 (order (vmemmap s p) - 1)) b (unat (order (vmemmap s p) - 1)) = Inr s3
           \<and> splitting s3 p"
proof -
  let ?o = "order (vmemmap s p)"
  let ?k = "unat ?o"
  let ?t = "set_order (set_order s p (?o - 1)) b (?o - 1)"
  let ?s3 = "list_add_tail (INIT_LIST_HEAD_node ?t (hyp_page_to_virt b)) b (?k - 1)"
  note inv = splittingD(1) [OF sp] and pr = splittingD(2) [OF sp] and ph = splittingD(3) [OF sp]
    and pl = splittingD(4) [OF sp] and fr = splittingD(5) [OF sp] and mi = splittingD(6) [OF sp]
    and eo = splittingD(7) [OF sp] and ea = splittingD(8) [OF sp] and z = splittingD(9) [OF sp]
  note ib = pool_invD(2) [OF inv]
  note sb = split_buddy [OF ib pr ph gt nc]
  from extract_step_inv [OF inv pr ph pl gt nc] obtain s3 where
    add: "page_add_to_list ?t b (unat (?o - 1)) = Inr s3"
    and 1: "pool_inv s3" "in_range s3 p" and o3: "order (vmemmap s3 p) = ?o - 1"
    and l3: "\<forall>j. p \<notin> set (free_area s3 j)"
    by blast
  from add have s3: "s3 = ?s3"
    unfolding sb(1) by (auto simp: page_add_to_list_def split: if_splits)
  have bp: "b \<noteq> p" using sb(3) by simp
  note hv = halves [OF sb(2), of p]
  note ap = head_apart [OF inv eo pr ph pl]
  note ba = members_apart [OF inv eo ea]
  have sub_b: "\<forall>t. group_frame b (?k - 1) t \<longrightarrow> group_frame p ?k t"
    unfolding sb(3) using hv(2) by blast
  have sub_p: "\<forall>t. group_frame p (?k - 1) t \<longrightarrow> group_frame p ?k t"
    using hv(1) by blast
  have dj: "\<forall>t. \<not> (group_frame p (?k - 1) t \<and> group_frame b (?k - 1) t)"
    unfolding sb(3) using hv(3) by blast
  have apb: "apart s b (?k - 1)"
    using ap sub_b by (rule apart_sub)
  have app: "apart s p (?k - 1)"
    using ap sub_p by (rule apart_sub)
  have zb: "zeroed s b (?k - 1)"
    using z sub_b by (rule zeroed_sub)
  have zp: "zeroed s p (?k - 1)"
    using z sub_p by (rule zeroed_sub)
  have h3: "order (vmemmap ?s3 p) \<noteq> HYP_NO_ORDER"
  proof -
    have "unat (?o - 1) \<le> MAX_ORDER"
      using inv_blocksD(1) [OF ib pr ph] inv_listsD(1) [OF pool_invD(1) [OF inv]] sb(1) by simp
    then have "?o - 1 \<noteq> HYP_NO_ORDER" by (rule small_order_is_head)
    with bp show ?thesis by simp
  qed
  have 2: "\<forall>q. q \<noteq> p \<and> in_range ?s3 q \<and> order (vmemmap ?s3 q) \<noteq> HYP_NO_ORDER
      \<and> refcount (vmemmap ?s3 q) = 0 \<longrightarrow> q \<in> set (free_area ?s3 (unat (order (vmemmap ?s3 q))))"
  proof (intro allI impI)
    fix q
    assume a: "q \<noteq> p \<and> in_range ?s3 q \<and> order (vmemmap ?s3 q) \<noteq> HYP_NO_ORDER
      \<and> refcount (vmemmap ?s3 q) = 0"
    show "q \<in> set (free_area ?s3 (unat (order (vmemmap ?s3 q))))"
    proof (cases "q = b")
      case True
      then show ?thesis by (simp add: sb(1))
    next
      case False
      with a have "q \<noteq> p" "in_range s q" "order (vmemmap s q) \<noteq> HYP_NO_ORDER"
        "refcount (vmemmap s q) = 0"
        by auto
      then have "q \<in> set (free_area s (unat (order (vmemmap s q))))" by (rule fr)
      with False a show ?thesis by auto
    qed
  qed
  have 3: "mem_inv ?s3"
    using add_mem_inv(1) [of ?t b "?k - 1"] mi ba apb zb by (simp add: zeroed_def)
  have sub: "\<forall>j q. q \<in> set (free_area ?s3 j) \<and> \<not> in_range s q \<longrightarrow> q \<in> set (free_area s j)"
    using sb(4) by (auto split: if_splits)
  have 4: "ext_out ?s3" "ext_apart ?s3"
    using ext_mono [of ?s3 s, OF sub] eo ea by simp_all
  have "zeroed ?s3 p (?k - 1)"
    using add_mem_inv(2) [of ?t b "?k - 1" p "?k - 1"] mi ba apb zb app zp dj
    by (simp add: zeroed_def)
  then have 5: "zeroed ?s3 p (unat (order (vmemmap ?s3 p)))"
    using bp by (simp add: sb(1))
  from add 1 l3 h3 2 3 4 5 show ?thesis
    unfolding s3 splitting_def by blast
qed

lemma extract_loop_zero:
  "splitting s p \<Longrightarrow> \<exists>s1. extract_loop s p ord = Inr s1 \<and> splitting s1 p"
proof (induction s p ord rule: extract_loop.induct)
  case (1 s p ord)
  let ?o = "order (vmemmap s p)"
  show ?case
  proof (cases "ord < ?o")
    case False
    with "1.prems" show ?thesis
      by (subst extract_step) simp
  next
    case True
    show ?thesis
    proof (cases "uu_find_buddy_nocheck s p (?o - 1)")
      case None
      with True "1.prems" show ?thesis
        by (subst extract_step) simp
    next
      case (Some b)
      from extract_step_zero [OF "1.prems" True Some] obtain s3 where
        add: "page_add_to_list (set_order (set_order s p (?o - 1)) b (?o - 1)) b (unat (?o - 1)) = Inr s3"
        and sp3: "splitting s3 p"
        by blast
      have a: "page_add_to_list
          (set_order (set_order s p (?o - 1)) b (order (vmemmap (set_order s p (?o - 1)) p)))
          b (unat (order (vmemmap (set_order (set_order s p (?o - 1)) b
                (order (vmemmap (set_order s p (?o - 1)) p))) b))) = Inr s3"
        using add by simp
      from "1.IH" [OF True Some refl refl a sp3] obtain s1 where
        "extract_loop s3 p ord = Inr s1" "splitting s1 p"
        by blast
      moreover have "extract_loop s p ord = extract_loop s3 p ord"
        using True Some add by (subst extract_step) simp
      ultimately show ?thesis by simp
    qed
  qed
qed


lemma group_frame_mono: "j \<le> k \<Longrightarrow> group_frame p j t \<Longrightarrow> group_frame p k t"
proof -
  assume "j \<le> k"
  then have le: "(2::nat) ^ j \<le> 2 ^ k" by simp
  assume "group_frame p j t"
  then have "p \<le> t" "t < p + 2 ^ j" by (simp_all add: group_frame_def)
  with le have "p \<le> t" "t < p + 2 ^ k" by arith+
  then show ?thesis by (simp add: group_frame_def)
qed

lemma alloc_zero:
  assumes zi: "zero_inv s" and r: "hyp_alloc_pages s want = Inr (Some a, s')"
  shows "(\<forall>x. a \<le> x \<and> x < a + 2 ^ unat want * PAGE_SIZE \<longrightarrow> mem s' x = 0) \<and> zero_inv s'"
proof -
  note inv = zero_invD(1) [OF zi] and fr = zero_invD(2) [OF zi] and mi = zero_invD(3) [OF zi]
    and eo = zero_invD(4) [OF zi] and ea = zero_invD(5) [OF zi]
  note il = pool_invD(1) [OF inv] and ib = pool_invD(2) [OF inv] and ie = pool_invD(4) [OF inv]
  note mo = inv_listsD(1) [OF il]
  from scan_total [OF mo, of "unat want"] obtain i where
    sc: "scan_free_area s (unat want) = Inr i" and wi: "unat want \<le> i"
    and ne: "i \<le> unat (max_order s) \<longrightarrow> free_area s i \<noteq> []"
    by blast
  from r sc have im: "i \<le> unat (max_order s)"
    by (auto simp: alloc_eq split: if_splits)
  let ?p = "hd (free_area s i)"
  let ?s0 = "page_remove_from_list s ?p"
  from im ne have m: "?p \<in> set (free_area s i)" by simp
  note ph = member_head [OF il m]
  have d: "\<forall>k. distinct (free_area s k)" using inv_listsD(2) [OF il] by blast
  note ba = members_apart [OF inv eo ea]
  note rm = remove_mem_inv [OF mi ba d, where b = ?p]
  have l0: "\<forall>j. ?p \<notin> set (free_area ?s0 j)"
    using removed_not_on_list [OF il m] by blast
  have f0: "q \<in> set (free_area ?s0 (unat (order (vmemmap ?s0 q))))"
    if "q \<noteq> ?p" "in_range ?s0 q" "order (vmemmap ?s0 q) \<noteq> HYP_NO_ORDER" "refcount (vmemmap ?s0 q) = 0"
    for q
  proof -
    from that have "q \<in> set (free_area s (unat (order (vmemmap s q))))"
      by (intro inv_freeD [OF fr]) simp_all
    with that(1) show ?thesis by simp
  qed
  have k0: "unat (order (vmemmap ?s0 ?p)) \<le> MAX_ORDER" using ph(1) im mo by simp
  have w0: "want \<le> order (vmemmap ?s0 ?p)" using ph(1) wi by (simp add: word_le_nat_alt)
  from extract_loop_result [OF k0 w0] obtain s1 where
    e: "extract_loop ?s0 ?p want = Inr s1" and ws: "want \<le> order (vmemmap s1 ?p)"
    and os: "order (vmemmap s1 ?p) \<le> order (vmemmap ?s0 ?p)"
    by blast
  have "(\<forall>q. q \<noteq> ?p \<and> in_range s1 q \<and> order (vmemmap s1 q) \<noteq> HYP_NO_ORDER
          \<and> refcount (vmemmap s1 q) = 0 \<longrightarrow> q \<in> set (free_area s1 (unat (order (vmemmap s1 q)))))
      \<and> mem_inv s1 \<and> ext_out s1 \<and> ext_apart s1 \<and> zeroed s1 ?p (unat (order (vmemmap s1 ?p)))"
  proof (cases "in_range s ?p")
    case True
    have "splitting ?s0 ?p"
      unfolding splitting_def
      using remove_inv [OF inv, of ?p] True ph(2) l0 f0 rm(1) remove_ext [of s ?p] eo ea
        rm(2) [OF m] ph(1)
      by simp
    from extract_loop_zero [OF this, of want] e have "splitting s1 ?p" by simp
    then show ?thesis unfolding splitting_def by blast
  next
    case False
    have "extract_loop ?s0 ?p want = Inr ?s0"
      using ie m False ph(1) by (rule extract_loop_external)
    with e have s1: "s1 = ?s0" by simp
    show ?thesis
      unfolding s1 using f0 rm(1) remove_ext [of s ?p] eo ea rm(2) [OF m] ph(1) by simp
  qed
  then have f1: "\<And>q. q \<noteq> ?p \<Longrightarrow> in_range s1 q \<Longrightarrow> order (vmemmap s1 q) \<noteq> HYP_NO_ORDER \<Longrightarrow>
          refcount (vmemmap s1 q) = 0 \<Longrightarrow> q \<in> set (free_area s1 (unat (order (vmemmap s1 q))))"
    and m1: "mem_inv s1" and e1: "ext_out s1" "ext_apart s1"
    and z1: "zeroed s1 ?p (unat (order (vmemmap s1 ?p)))"
    by blast+
  have k1: "unat (order (vmemmap s1 ?p)) < 31"
    using os k0 by (simp add: word_le_nat_alt MAX_ORDER_def)
  from r sc im e k1 have a: "a = hyp_page_to_virt ?p"
    and s': "s' = (hyp_set_page_refcounted s1 ?p)
       \<lparr>free_pages := free_pages s1 - push_bit (unat (order (vmemmap s1 ?p))) 1\<rparr>"
    by (simp_all add: alloc_eq addr_defs)
  from alloc_inv [OF inv, of want] r have 1: "pool_inv s'" by auto
  have 2: "inv_free s'"
    unfolding inv_free_def
  proof (intro allI impI)
    fix q
    assume h: "in_range s' q \<and> order (vmemmap s' q) \<noteq> HYP_NO_ORDER \<and> refcount (vmemmap s' q) = 0"
    then have "q \<noteq> ?p" unfolding s' by auto
    with h have "q \<in> set (free_area s1 (unat (order (vmemmap s1 q))))"
      unfolding s' by (intro f1) simp_all
    then show "q \<in> set (free_area s' (unat (order (vmemmap s' q))))"
      unfolding s' by simp
  qed
  have 3: "mem_inv s'" "ext_out s'" "ext_apart s'"
    unfolding s' using m1 e1 by simp_all
  from ws have le1: "unat want \<le> unat (order (vmemmap s1 ?p))"
    by (simp add: word_le_nat_alt)
  have "mem s' x = 0" if "a \<le> x \<and> x < a + 2 ^ unat want * PAGE_SIZE" for x
  proof -
    from that have "group_byte ?p (unat want) x"
      unfolding a group_byte_iff by simp
    then have "group_frame ?p (unat want) (hyp_virt_to_page x)"
      by (simp only: group_byte_def)
    with le1 have "group_frame ?p (unat (order (vmemmap s1 ?p))) (hyp_virt_to_page x)"
      by (rule group_frame_mono)
    then have "group_byte ?p (unat (order (vmemmap s1 ?p))) x"
      by (simp only: group_byte_def)
    with z1 have "mem s1 x = 0" unfolding zeroed_def by blast
    then show ?thesis unfolding s' by simp
  qed
  with 1 2 3 show ?thesis by (simp add: zero_inv_def)
qed


subsection \<open>Split, stores of the holders and initialisation\<close>

lemma split_fold_mem:
  "mem (fold (\<lambda>i s'. hyp_set_page_refcounted (set_order s' (p + i) 0) (p + i)) xs s) = mem s"
  by (induction xs arbitrary: s) simp_all

lemma split_mem: "hyp_split_page s p = Inr s' \<Longrightarrow> mem s' = mem s"
  by (auto simp: hyp_split_page_def Let_def split_fold_mem split: if_splits simp del: upt_Suc)

lemma split_zero:
  assumes zi: "zero_inv s" and ok: "split_ok s p"
  shows "\<exists>s'. hyp_split_page s p = Inr s' \<and> zero_inv s'"
proof -
  let ?k = "unat (order (vmemmap s p))"
  note inv = zero_invD(1) [OF zi] and fr = zero_invD(2) [OF zi] and mi = zero_invD(3) [OF zi]
    and eo = zero_invD(4) [OF zi] and ea = zero_invD(5) [OF zi]
  from split_inv [OF inv ok] obtain s' where sp: "hyp_split_page s p = Inr s'" and 1: "pool_inv s'"
    by blast
  from ok have rc: "refcount (vmemmap s p) \<noteq> 0" and ko: "order (vmemmap s p) \<le> max_order s"
    unfolding split_ok_def by blast+
  have "?k \<le> MAX_ORDER"
    using ko inv_listsD(1) [OF pool_invD(1) [OF inv]] by (simp add: word_le_nat_alt)
  then have "?k < 31" by (simp add: MAX_ORDER_def)
  from split_result [OF this] sp have fa: "free_area s' = free_area s"
    and rs: "range_start s' = range_start s" and re: "range_end s' = range_end s"
    and od: "\<And>q. order (vmemmap s' q) = (if p \<le> q \<and> q < p + 2 ^ ?k then 0 else order (vmemmap s q))"
    and rf: "\<And>q. refcount (vmemmap s' q) = (if p < q \<and> q < p + 2 ^ ?k then 1 else refcount (vmemmap s q))"
    by auto
  have ir: "in_range s' = in_range s"
    using rs re by (simp add: in_range_def fun_eq_iff)
  note me = split_mem [OF sp]
  have 2: "inv_free s'"
    unfolding inv_free_def ir fa
  proof (intro allI impI)
    fix q
    assume a: "in_range s q \<and> order (vmemmap s' q) \<noteq> HYP_NO_ORDER \<and> refcount (vmemmap s' q) = 0"
    then have n1: "\<not> (p < q \<and> q < p + 2 ^ ?k)" by (auto simp: rf)
    with a rc have "q \<noteq> p" by (auto simp: rf)
    with n1 have n2: "\<not> (p \<le> q \<and> q < p + 2 ^ ?k)" by auto
    then have "order (vmemmap s' q) = order (vmemmap s q)" by (auto simp: od)
    moreover from n1 have "refcount (vmemmap s' q) = refcount (vmemmap s q)" by (auto simp: rf)
    ultimately show "q \<in> set (free_area s (unat (order (vmemmap s' q))))"
      using a inv_freeD [OF fr, of q] by simp
  qed
  have 3: "mem_inv s'" using mi unfolding mem_inv_def fa me .
  have 4: "ext_out s'" using eo unfolding ext_out_def fa ir .
  have 5: "ext_apart s'" using ea unfolding ext_apart_def fa ir .
  from sp 1 2 3 4 5 show ?thesis by (simp add: zero_inv_def)
qed

text \<open>A holder may store anything into bytes that belong to no free group.\<close>

lemma store_zero:
  assumes zi: "zero_inv s"
    and w: "\<forall>x. m x \<noteq> mem s x \<longrightarrow> (\<forall>k p. p \<in> set (free_area s k) \<longrightarrow> \<not> group_byte p k x)"
  shows "zero_inv (s\<lparr>mem := m\<rparr>)"
proof -
  have "mem_inv (s\<lparr>mem := m\<rparr>)"
    unfolding mem_inv_def
  proof (intro allI impI)
    fix k p x
    assume a: "p \<in> set (free_area (s\<lparr>mem := m\<rparr>) k) \<and> group_byte p k x \<and> \<not> node_byte p x"
    with w have "m x = mem s x" by auto
    moreover from a zero_invD(3) [OF zi] have "mem s x = 0" unfolding mem_inv_def by simp
    ultimately show "mem (s\<lparr>mem := m\<rparr>) x = 0" by simp
  qed
  with zero_invD [OF zi] show ?thesis by (simp add: zero_inv_def)
qed

lemma init_empty_zero:
  assumes "init_empty_ok s nr"
  shows "\<exists>s'. hyp_pool_init_empty s nr = Inr s' \<and> zero_inv s'"
proof -
  let ?mo = "pool_max_order nr"
  let ?s' = "s\<lparr>max_order := of_nat ?mo, free_area := (\<lambda>k. if k \<le> ?mo then [] else free_area s k),
      range_start := 2 ^ 64 - 1, range_end := 0\<rparr>"
  have e: "hyp_pool_init_empty s nr = Inr ?s'"
    by (simp add: hyp_pool_init_empty_def uu_hyp_pool_init_def pool_max_order_def Let_def)
  from init_empty_inv [OF assms] e have 1: "pool_inv ?s'" by simp
  have fa: "free_area ?s' k = []" for k
    using assms by (simp add: init_empty_ok_def)
  have nr: "\<not> in_range ?s' q" for q
    by (simp add: in_range_def)
  have "inv_free ?s'" unfolding inv_free_def using nr by blast
  moreover have "mem_inv ?s'" unfolding mem_inv_def fa by simp
  moreover have "ext_out ?s'" unfolding ext_out_def fa by simp
  moreover have "ext_apart ?s'" unfolding ext_apart_def fa by simp
  ultimately show ?thesis using e 1 by (simp add: zero_inv_def)
qed

lemma remove_node_zeroed:
  "hyp_page_to_virt p \<le> x \<and> x < hyp_page_to_virt p + 16 \<Longrightarrow> mem (page_remove_from_list s p) x = 0"
  by (rule remove_mem_node) (simp add: node_byte_def)


subsection \<open>Release and initialisation past the undefined shift\<close>

text \<open>After a release, every byte of the released group is zero or in the node of a free head.\<close>

lemma released_bytes:
  assumes zi: "zero_inv s'" and q: "q \<in> set (free_area s' j)"
    and cv: "\<forall>t. group_frame p k t \<longrightarrow> group_frame q j t"
    and x: "group_byte p k x"
  shows "mem s' x = 0 \<or> (\<exists>j q. q \<in> set (free_area s' j) \<and> node_byte q x)"
proof (cases "node_byte q x")
  case True
  with q show ?thesis by blast
next
  case False
  from x cv have "group_byte q j x" by (simp add: group_byte_def)
  with zero_invD(3) [OF zi] q False have "mem s' x = 0" unfolding mem_inv_def by blast
  then show ?thesis by simp
qed

lemma put_cont_zero:
  assumes zi: "zero_inv s" and ok: "put_ok s p" and pa: "put_apart s p"
    and k: "order (vmemmap s p) \<le> max_order s"
  shows "\<exists>s'. uu_hyp_put_page_cont u s p = Inr s' \<and> zero_inv s'
    \<and> (refcount (vmemmap s p) = 1 \<longrightarrow>
         (\<forall>x. group_byte p (unat (order (vmemmap s p))) x \<longrightarrow>
            mem s' x = 0 \<or> (\<exists>j q. q \<in> set (free_area s' j) \<and> node_byte q x)))"
proof (cases "refcount (vmemmap s p) = 1")
  case True
  from ok have rc: "refcount (vmemmap s p) \<noteq> 0" by (simp add: put_ok_def)
  have "\<exists>s2. uu_hyp_attach_page (set_refcount s p 0) p = Inr s2 \<and> zero_inv s2
      \<and> (\<exists>j q. q \<in> set (free_area s2 j)
            \<and> (\<forall>t. group_frame p (unat (order (vmemmap s p))) t \<longrightarrow> group_frame q j t))"
  proof (cases "in_range s p")
    case True
    from attach_in_range_zero [OF zi rc True
        max_order_small [OF pool_invD(1) [OF zero_invD(1) [OF zi]] k]]
    show ?thesis .
  next
    case False
    with ok have "\<forall>j. j < unat (order (vmemmap s p)) \<longrightarrow> uu_find_buddy_nocheck s p (of_nat j) = None"
      by (simp add: put_ok_def)
    from attach_external_zero [OF zi rc False k this pa] show ?thesis .
  qed
  then obtain s2 j q where a: "uu_hyp_attach_page (set_refcount s p 0) p = Inr s2"
    and z2: "zero_inv s2" and qm: "q \<in> set (free_area s2 j)"
    and cv: "\<forall>t. group_frame p (unat (order (vmemmap s p))) t \<longrightarrow> group_frame q j t"
    by blast
  let ?s' = "s2\<lparr>free_pages := free_pages s2
      + (if unat (order (vmemmap s2 p)) < 31 then push_bit (unat (order (vmemmap s2 p))) 1
         else u (unat (order (vmemmap s2 p))))\<rparr>"
  have e: "uu_hyp_put_page_cont u s p = Inr ?s'"
    using True a by (simp add: put_cont_eq)
  have z: "zero_inv ?s'" using z2 by simp
  have "mem ?s' x = 0 \<or> (\<exists>j q. q \<in> set (free_area ?s' j) \<and> node_byte q x)"
    if "group_byte p (unat (order (vmemmap s p))) x" for x
    using released_bytes [OF z2 qm cv that] by simp
  with e z show ?thesis by blast
next
  case False
  from ok have rc: "refcount (vmemmap s p) \<noteq> 0" by (simp add: put_ok_def)
  from False have "refcount (vmemmap s p) - 1 \<noteq> 0" by simp
  from held_refcount_zero [OF zi rc this] False show ?thesis
    by (simp add: put_cont_eq)
qed

lemma hyp_put_page_cont_zero:
  assumes "zero_inv s" "put_ok s (hyp_virt_to_page addr)" "put_apart s (hyp_virt_to_page addr)"
    and "order (vmemmap s (hyp_virt_to_page addr)) \<le> max_order s"
  shows "\<exists>s'. hyp_put_page_cont u s addr = Inr s' \<and> zero_inv s'
    \<and> (refcount (vmemmap s (hyp_virt_to_page addr)) = 1 \<longrightarrow>
         (\<forall>x. group_byte (hyp_virt_to_page addr) (unat (order (vmemmap s (hyp_virt_to_page addr)))) x \<longrightarrow>
            mem s' x = 0 \<or> (\<exists>j q. q \<in> set (free_area s' j) \<and> node_byte q x)))"
  using put_cont_zero [OF assms, of u] assms(4)
  by (simp add: hyp_put_page_cont_def Let_def not_less)

lemma put_pages_cont_zero:
  "zero_inv s \<Longrightarrow> distinct ps \<Longrightarrow>
   \<forall>q\<in>set ps. in_range s q \<and> refcount (vmemmap s q) \<noteq> 0 \<and> order (vmemmap s q) = 0 \<Longrightarrow>
   \<exists>s'. put_pages_cont u s ps = Inr s' \<and> zero_inv s'"
proof (induction ps arbitrary: s)
  case Nil
  then show ?case by simp
next
  case (Cons p ps)
  from Cons.prems(3) have ok: "put_ok s p" and pa: "put_apart s p" and o: "order (vmemmap s p) = 0"
    by (simp_all add: put_ok_def put_apart_def)
  have "order (vmemmap s p) \<le> max_order s" by (simp add: o)
  from put_cont_zero [OF Cons.prems(1) ok pa this, of u] obtain s1 where
    p1: "uu_hyp_put_page_cont u s p = Inr s1" and i1: "zero_inv s1"
    by blast
  have "in_range s1 q \<and> refcount (vmemmap s1 q) \<noteq> 0 \<and> order (vmemmap s1 q) = 0" if "q \<in> set ps" for q
  proof -
    from that Cons.prems(2,3) have "q \<noteq> p" "refcount (vmemmap s q) \<noteq> 0" "in_range s q"
      "order (vmemmap s q) = 0"
      by auto
    with put_cont_frame [OF p1 this(1,2)] show ?thesis by (simp add: in_range_def)
  qed
  with Cons.IH [OF i1] Cons.prems(2) obtain s' where "put_pages_cont u s1 ps = Inr s'" "zero_inv s'"
    by auto
  with p1 show ?case by simp
qed

lemma init_cont_zero:
  assumes ok: "init_ok s pfn nr"
  shows "\<exists>s'. hyp_pool_init_cont u s pfn nr res = Inr s' \<and> zero_inv s'"
proof -
  note st = init_start [OF ok]
  let ?s3 = "fold (\<lambda>i s'. hyp_set_page_refcounted s' (pfn + i)) [0..<unat nr]
      (s\<lparr>max_order := of_nat (pool_max_order nr),
         free_area := (\<lambda>k. if k \<le> pool_max_order nr then [] else free_area s k),
         range_start := push_bit 12 pfn, range_end := push_bit 12 pfn + unat nr * 4096\<rparr>)"
  have "inv_free ?s3" unfolding inv_free_def using st(4) by auto
  moreover have "mem_inv ?s3" unfolding mem_inv_def st(3) by simp
  moreover have "ext_out ?s3" unfolding ext_out_def st(3) by simp
  moreover have "ext_apart ?s3" unfolding ext_apart_def st(3) by simp
  ultimately have z3: "zero_inv ?s3" using st(2) by (simp add: zero_inv_def)
  have "distinct (map (\<lambda>i. pfn + i) [unat res..<unat nr])"
    by (simp add: distinct_map inj_on_def)
  from put_pages_cont_zero [OF z3 this, of u] st(4) st(5) [of _ res] show ?thesis
    unfolding st(1) [where u = u and res = res] by auto
qed

lemma alloc_null_same: "hyp_alloc_pages s want = Inr (None, s') \<Longrightarrow> s' = s"
  by (auto simp: alloc_eq split: sum.splits if_splits)

lemma alloc_zero_total:
  assumes zi: "zero_inv s"
  shows "\<exists>r s'. hyp_alloc_pages s want = Inr (r, s') \<and> zero_inv s'
     \<and> (\<forall>a x. r = Some a \<and> a \<le> x \<and> x < a + 2 ^ unat want * PAGE_SIZE \<longrightarrow> mem s' x = 0)"
proof -
  from alloc_inv [OF zero_invD(1) [OF zi], of want] obtain r s' where
    a: "hyp_alloc_pages s want = Inr (r, s')" by blast
  show ?thesis
  proof (cases r)
    case None
    with a alloc_null_same [of s want s'] zi show ?thesis by simp
  next
    case (Some b)
    with alloc_zero [OF zi, of want b s'] a show ?thesis by simp
  qed
qed


text \<open>
  Claim C8 (zeroing). In a pool whose free groups are zeroed (\<open>zero_inv\<close>: the pool is
  well formed, every byte of a free group is zero except the 16 bytes of the list node
  of its head, every free head inside the range is on the list of its order, and the
  free groups from outside the range overlap neither the range nor each other):
  \<^item> \<^verbatim>\<open>hyp_alloc_pages\<close> returns, and a pointer it returns points to \<open>2 ^ want\<close> pages
    whose bytes are all zero; the pool stays zeroed;
  \<^item> a holder may store anything into bytes that belong to no free group;
  \<^item> \<^verbatim>\<open>hyp_put_page\<close> returns a zeroed pool whatever the released pages contain, and
    after the release that takes the count to zero every byte of the released group is
    zero or in the list node of a free head (the caller holds a reference, the order is
    at most \<open>max_order\<close>, and a group from outside the range overlaps neither the range
    nor a free group);
  \<^item> \<^verbatim>\<open>hyp_get_page\<close> (the count held and not at its maximum) and \<^verbatim>\<open>hyp_split_page\<close>
    keep the pool zeroed.
  Both initialisers build a zeroed pool, and \<^verbatim>\<open>page_remove_from_list\<close> leaves the 16
  bytes of the list node zero. As for claim C6, \<^verbatim>\<open>hyp_put_page\<close> and \<^verbatim>\<open>hyp_pool_init\<close>
  are followed past the undefined shift of the counter update.
\<close>

theorem alloc_returns_zeroed:
  "(zero_inv s \<longrightarrow>
      (\<exists>r s'. hyp_alloc_pages s want = Inr (r, s') \<and> zero_inv s'
         \<and> (\<forall>a x. r = Some a \<and> a \<le> x \<and> x < a + 2 ^ unat want * PAGE_SIZE \<longrightarrow> mem s' x = 0))
      \<and> (\<forall>m. (\<forall>x. m x \<noteq> mem s x \<longrightarrow> (\<forall>k q. q \<in> set (free_area s k) \<longrightarrow> \<not> group_byte q k x)) \<longrightarrow>
             zero_inv (s\<lparr>mem := m\<rparr>))
      \<and> (put_ok s (hyp_virt_to_page addr) \<and> put_apart s (hyp_virt_to_page addr)
            \<and> order (vmemmap s (hyp_virt_to_page addr)) \<le> max_order s \<longrightarrow>
            (\<exists>s'. hyp_put_page_cont u s addr = Inr s' \<and> zero_inv s'
               \<and> (refcount (vmemmap s (hyp_virt_to_page addr)) = 1 \<longrightarrow>
                    (\<forall>x. group_byte (hyp_virt_to_page addr)
                            (unat (order (vmemmap s (hyp_virt_to_page addr)))) x \<longrightarrow>
                       mem s' x = 0 \<or> (\<exists>j q. q \<in> set (free_area s' j) \<and> node_byte q x)))))
      \<and> (refcount (vmemmap s (hyp_virt_to_page addr)) \<noteq> 0
            \<and> refcount (vmemmap s (hyp_virt_to_page addr)) + 1 \<noteq> 0 \<longrightarrow>
            zero_inv (hyp_get_page s addr))
      \<and> (split_ok s p \<longrightarrow> (\<exists>s'. hyp_split_page s p = Inr s' \<and> zero_inv s')))
   \<and> (init_ok s pfn nr_pages \<longrightarrow>
        (\<exists>s'. hyp_pool_init_cont u s pfn nr_pages reserved_pages = Inr s' \<and> zero_inv s'))
   \<and> (init_empty_ok s nr_pages \<longrightarrow>
        (\<exists>s'. hyp_pool_init_empty s nr_pages = Inr s' \<and> zero_inv s'))
   \<and> (\<forall>x. hyp_page_to_virt p \<le> x \<and> x < hyp_page_to_virt p + 16 \<longrightarrow>
          mem (page_remove_from_list s p) x = 0)"
proof (intro conjI impI allI)
  assume "zero_inv s"
  then show "\<exists>r s'. hyp_alloc_pages s want = Inr (r, s') \<and> zero_inv s'
      \<and> (\<forall>a x. r = Some a \<and> a \<le> x \<and> x < a + 2 ^ unat want * PAGE_SIZE \<longrightarrow> mem s' x = 0)"
    by (rule alloc_zero_total)
next
  fix m
  assume "zero_inv s"
    "\<forall>x. m x \<noteq> mem s x \<longrightarrow> (\<forall>k q. q \<in> set (free_area s k) \<longrightarrow> \<not> group_byte q k x)"
  then show "zero_inv (s\<lparr>mem := m\<rparr>)" by (rule store_zero)
next
  assume "zero_inv s" "put_ok s (hyp_virt_to_page addr) \<and> put_apart s (hyp_virt_to_page addr)
      \<and> order (vmemmap s (hyp_virt_to_page addr)) \<le> max_order s"
  then show "\<exists>s'. hyp_put_page_cont u s addr = Inr s' \<and> zero_inv s'
      \<and> (refcount (vmemmap s (hyp_virt_to_page addr)) = 1 \<longrightarrow>
           (\<forall>x. group_byte (hyp_virt_to_page addr)
                   (unat (order (vmemmap s (hyp_virt_to_page addr)))) x \<longrightarrow>
              mem s' x = 0 \<or> (\<exists>j q. q \<in> set (free_area s' j) \<and> node_byte q x)))"
    using hyp_put_page_cont_zero [of s addr u] by blast
next
  assume "zero_inv s" "refcount (vmemmap s (hyp_virt_to_page addr)) \<noteq> 0
      \<and> refcount (vmemmap s (hyp_virt_to_page addr)) + 1 \<noteq> 0"
  then show "zero_inv (hyp_get_page s addr)" using get_zero [of s addr] by blast
next
  assume "zero_inv s" "split_ok s p"
  then show "\<exists>s'. hyp_split_page s p = Inr s' \<and> zero_inv s'" by (rule split_zero)
next
  assume "init_ok s pfn nr_pages"
  then show "\<exists>s'. hyp_pool_init_cont u s pfn nr_pages reserved_pages = Inr s' \<and> zero_inv s'"
    by (rule init_cont_zero)
next
  assume "init_empty_ok s nr_pages"
  then show "\<exists>s'. hyp_pool_init_empty s nr_pages = Inr s' \<and> zero_inv s'" by (rule init_empty_zero)
next
  fix x assume "hyp_page_to_virt p \<le> x \<and> x < hyp_page_to_virt p + 16"
  then show "mem (page_remove_from_list s p) x = 0" by (rule remove_node_zeroed)
qed

text \<open>
  The witness: scenario S1 (four frames from frame 0, one free group of order 2 after
  initialisation); an allocation of order 1 that splits the group; the holder stores the
  byte 255 into both of its pages; the put of the group, which coalesces it with its
  buddy; and an allocation of order 2, which returns the four pages with the stored
  bytes zero again.
\<close>

theorem alloc_returns_zeroed_witness:
  "init_empty_ok boot_state 8
   \<and> (\<exists>s'. hyp_pool_init_empty boot_state 8 = Inr s' \<and> zero_inv s')
   \<and> init_ok boot_state 0 4
   \<and> (\<exists>s. hyp_pool_init_cont (\<lambda>_. 0) boot_state 0 4 0 = Inr s \<and> zero_inv s
         \<and> (\<exists>s1. hyp_alloc_pages s 1 = Inr (Some 0, s1) \<and> zero_inv s1
               \<and> refcount (vmemmap s1 (hyp_virt_to_page 0)) \<noteq> 0
               \<and> refcount (vmemmap s1 (hyp_virt_to_page 0)) + 1 \<noteq> 0
               \<and> zero_inv (hyp_get_page s1 0)
               \<and> split_ok s1 0 \<and> (\<exists>s'. hyp_split_page s1 0 = Inr s' \<and> zero_inv s')
               \<and> zero_inv (s1\<lparr>mem := (mem s1)(100 := 255, 5000 := 255)\<rparr>)
               \<and> put_ok (s1\<lparr>mem := (mem s1)(100 := 255, 5000 := 255)\<rparr>) (hyp_virt_to_page 0)
               \<and> put_apart (s1\<lparr>mem := (mem s1)(100 := 255, 5000 := 255)\<rparr>) (hyp_virt_to_page 0)
               \<and> order (vmemmap (s1\<lparr>mem := (mem s1)(100 := 255, 5000 := 255)\<rparr>) (hyp_virt_to_page 0))
                    \<le> max_order (s1\<lparr>mem := (mem s1)(100 := 255, 5000 := 255)\<rparr>)
               \<and> (\<exists>s2. hyp_put_page_cont (\<lambda>_. 0) (s1\<lparr>mem := (mem s1)(100 := 255, 5000 := 255)\<rparr>) 0
                          = Inr s2
                     \<and> zero_inv s2 \<and> free_area s2 2 = [0]
                     \<and> (\<exists>s3. hyp_alloc_pages s2 2 = Inr (Some 0, s3) \<and> zero_inv s3
                           \<and> mem s3 100 = 0 \<and> mem s3 5000 = 0))))
   \<and> mem (page_remove_from_list boot_state 0) 8 = 0"
proof -
  let ?u = "\<lambda>_ :: nat. 0 :: 64 word"
  have e: "init_empty_ok boot_state 8"
    by (simp add: init_empty_ok_def)
  have o: "init_ok boot_state 0 4"
    by (simp add: init_ok_def init_empty_ok_def)
  from four_init obtain s where i: "hyp_pool_init_cont ?u boot_state 0 4 0 = Inr s"
    and fa: "\<And>k. free_area s k = (if k = 2 then [0] else [])"
    and r: "range_start s = 0" "range_end s = 16384" and m: "max_order s = 2"
    and od: "order (vmemmap s 0) = 2" "order (vmemmap s 1) = 255" "order (vmemmap s 2) = 255"
    and rf: "\<And>q. refcount (vmemmap s q) = 0"
    by (cases "hyp_pool_init_cont ?u boot_state 0 4 0") auto
  have v: "hyp_virt_to_page 0 = 0"
    by (simp add: addr_defs)
  have zi: "zero_inv s"
    using alloc_returns_zeroed [where s = boot_state and pfn = 0 and nr_pages = 4 and u = ?u
        and reserved_pages = 0] o i
    by auto
  have "\<exists>s1. hyp_alloc_pages s 1 = Inr (Some 0, s1)
      \<and> (\<forall>k. free_area s1 k = (if k = 1 then [2] else []))
      \<and> range_start s1 = 0 \<and> range_end s1 = 16384 \<and> max_order s1 = 2
      \<and> order (vmemmap s1 0) = 1 \<and> refcount (vmemmap s1 0) = 1
      \<and> order (vmemmap s1 2) = 1 \<and> refcount (vmemmap s1 2) = 0"
    by (simp add: eval_simps fa r m od rf)
  then obtain s1 where a1: "hyp_alloc_pages s 1 = Inr (Some 0, s1)"
    and fa1: "\<And>k. free_area s1 k = (if k = 1 then [2] else [])"
    and r1: "range_start s1 = 0" "range_end s1 = 16384" and m1: "max_order s1 = 2"
    and o1: "order (vmemmap s1 0) = 1" and c1: "refcount (vmemmap s1 0) = 1"
    and o2: "order (vmemmap s1 2) = 1" and c2: "refcount (vmemmap s1 2) = 0"
    by blast
  have z1: "zero_inv s1"
    using alloc_returns_zeroed [where s = s and want = 1] zi a1 by auto
  note th1 = alloc_returns_zeroed [where s = s1 and addr = 0 and p = 0 and u = ?u]
  have rc: "refcount (vmemmap s1 (hyp_virt_to_page 0)) \<noteq> 0"
    "refcount (vmemmap s1 (hyp_virt_to_page 0)) + 1 \<noteq> 0"
    by (simp_all add: v c1)
  have sk: "split_ok s1 0"
    by (simp add: split_ok_def c1 o1 m1 in_range_def r1 addr_defs)
  have g: "zero_inv (hyp_get_page s1 0)" "\<exists>s'. hyp_split_page s1 0 = Inr s' \<and> zero_inv s'"
    using th1 z1 rc sk by blast+
  let ?m = "(mem s1)(100 := 255, 5000 := 255)"
  let ?w = "s1\<lparr>mem := ?m\<rparr>"
  have "\<forall>x. ?m x \<noteq> mem s1 x \<longrightarrow> (\<forall>k q. q \<in> set (free_area s1 k) \<longrightarrow> \<not> group_byte q k x)"
    by (auto simp: fa1 group_byte_def group_frame_def addr_defs drop_bit_eq_div split: if_splits)
  with th1 z1 have zw: "zero_inv ?w" by blast
  have pk: "put_ok ?w (hyp_virt_to_page 0)"
    by (simp add: put_ok_def v c1 in_range_def r1 addr_defs)
  have pa: "put_apart ?w (hyp_virt_to_page 0)"
    by (simp add: put_apart_def v in_range_def r1 addr_defs)
  have le: "order (vmemmap ?w (hyp_virt_to_page 0)) \<le> max_order ?w"
    by (simp add: v o1 m1)
  have "\<exists>s2. hyp_put_page_cont ?u ?w 0 = Inr s2
      \<and> (\<forall>k. free_area s2 k = (if k = 2 then [0] else []))
      \<and> max_order s2 = 2 \<and> order (vmemmap s2 0) = 2"
    by (simp add: hyp_put_page_cont_eq put_cont_eq eval_simps fa1 r1 m1 o1 c1 o2 c2)
  then obtain s2 where p2: "hyp_put_page_cont ?u ?w 0 = Inr s2"
    and fa2: "\<And>k. free_area s2 k = (if k = 2 then [0] else [])"
    and m2: "max_order s2 = 2" and o22: "order (vmemmap s2 0) = 2"
    by blast
  have z2: "zero_inv s2"
    using alloc_returns_zeroed [where s = ?w and addr = 0 and u = ?u] zw pk pa le p2 by auto
  have "\<exists>s3. hyp_alloc_pages s2 2 = Inr (Some 0, s3)"
    by (simp add: eval_simps fa2 m2 o22)
  then obtain s3 where a3: "hyp_alloc_pages s2 2 = Inr (Some 0, s3)" by blast
  have "zero_inv s3 \<and> (\<forall>a x. Some 0 = Some a \<and> a \<le> x \<and> x < a + 2 ^ unat (2 :: 8 word) * PAGE_SIZE
      \<longrightarrow> mem s3 x = 0)"
    using alloc_returns_zeroed [where s = s2 and want = 2] z2 a3 by auto
  then have z3: "zero_inv s3" and b3: "mem s3 100 = 0" "mem s3 5000 = 0"
    by (auto simp: PAGE_SIZE_def)
  have f22: "free_area s2 2 = [0]" by (simp add: fa2)
  have ie: "\<exists>s'. hyp_pool_init_empty boot_state 8 = Inr s' \<and> zero_inv s'"
    using alloc_returns_zeroed [where s = boot_state and nr_pages = 8] e by blast
  have "hyp_page_to_virt 0 \<le> 8 \<and> 8 < hyp_page_to_virt 0 + (16::nat)"
    by (simp add: addr_defs)
  then have nd: "mem (page_remove_from_list boot_state 0) 8 = 0"
    using alloc_returns_zeroed [where s = boot_state and p = 0] by blast
  from a3 z3 b3 have l3: "\<exists>s3. hyp_alloc_pages s2 2 = Inr (Some 0, s3) \<and> zero_inv s3
      \<and> mem s3 100 = 0 \<and> mem s3 5000 = 0"
    by blast
  with p2 z2 f22 have l2: "\<exists>s2. hyp_put_page_cont ?u ?w 0 = Inr s2 \<and> zero_inv s2 \<and> free_area s2 2 = [0]
      \<and> (\<exists>s3. hyp_alloc_pages s2 2 = Inr (Some 0, s3) \<and> zero_inv s3
            \<and> mem s3 100 = 0 \<and> mem s3 5000 = 0)"
    by blast
  from a1 z1 rc g sk zw pk pa le l2 have l1: "\<exists>s1. hyp_alloc_pages s 1 = Inr (Some 0, s1) \<and> zero_inv s1
               \<and> refcount (vmemmap s1 (hyp_virt_to_page 0)) \<noteq> 0
               \<and> refcount (vmemmap s1 (hyp_virt_to_page 0)) + 1 \<noteq> 0
               \<and> zero_inv (hyp_get_page s1 0)
               \<and> split_ok s1 0 \<and> (\<exists>s'. hyp_split_page s1 0 = Inr s' \<and> zero_inv s')
               \<and> zero_inv (s1\<lparr>mem := (mem s1)(100 := 255, 5000 := 255)\<rparr>)
               \<and> put_ok (s1\<lparr>mem := (mem s1)(100 := 255, 5000 := 255)\<rparr>) (hyp_virt_to_page 0)
               \<and> put_apart (s1\<lparr>mem := (mem s1)(100 := 255, 5000 := 255)\<rparr>) (hyp_virt_to_page 0)
               \<and> order (vmemmap (s1\<lparr>mem := (mem s1)(100 := 255, 5000 := 255)\<rparr>) (hyp_virt_to_page 0))
                    \<le> max_order (s1\<lparr>mem := (mem s1)(100 := 255, 5000 := 255)\<rparr>)
               \<and> (\<exists>s2. hyp_put_page_cont (\<lambda>_. 0) (s1\<lparr>mem := (mem s1)(100 := 255, 5000 := 255)\<rparr>) 0
                          = Inr s2
                     \<and> zero_inv s2 \<and> free_area s2 2 = [0]
                     \<and> (\<exists>s3. hyp_alloc_pages s2 2 = Inr (Some 0, s3) \<and> zero_inv s3
                           \<and> mem s3 100 = 0 \<and> mem s3 5000 = 0))"
    by blast
  from e ie o i zi l1 nd show ?thesis by blast
qed

end
